theory Spec2Isabelle
  imports Main
begin

section \<open>Python strings and the library functions the parser calls\<close>

text \<open>
  A Python \<open>str\<close> is a sequence of Unicode code points, so it is modelled as a list of
  natural numbers, one per code point. ASCII literals of the source are written
  \<open>ascii ''...''\<close>; the Cyrillic literals are written out as code points.
\<close>

type_synonym ustr = "nat list"

definition ascii :: "string \<Rightarrow> ustr" where
  "ascii s = map of_char s"

text \<open>The exceptions that the source and the library calls it makes can raise.
  \<open>UnicodeEncodeError\<close> is a subclass of \<open>ValueError\<close> in Python; it is kept apart
  here so that the two can be told from each other.\<close>

datatype error =
    ValueError
  | UnicodeEncodeError
  | KeyError
  | IndexError
  | AttributeError
  | TypeError
  | TooManyRequests

subsection \<open>Character classes\<close>

text \<open>\<open>str.isspace\<close>, which is also what \<open>\s\<close> matches in a \<open>str\<close> pattern and what
  \<open>str.split()\<close> and \<open>str.strip()\<close> take for whitespace.\<close>

definition whitespace :: "nat list" where
  "whitespace = [9, 10, 11, 12, 13, 28, 29, 30, 31, 32, 133, 160, 5760,
     8192, 8193, 8194, 8195, 8196, 8197, 8198, 8199, 8200, 8201, 8202,
     8232, 8233, 8239, 8287, 12288]"

definition is_space :: "nat \<Rightarrow> bool" where
  "is_space c = (c \<in> set whitespace)"

text \<open>The decimal digits of Unicode (general category Nd), which is what \<open>\d\<close> matches in
  a \<open>str\<close> pattern and what \<open>int\<close> reads. Each script has ten consecutive code points
  for the digits 0 to 9; the table lists the code point of each script's zero
  (Unicode 14).\<close>

definition unicode_zeros :: "nat list" where
  "unicode_zeros = [48, 1632, 1776, 1984, 2406, 2534, 2662, 2790, 2918, 3046, 3174,
     3302, 3430, 3558, 3664, 3792, 3872, 4160, 4240, 6112, 6160, 6470, 6608, 6784,
     6800, 6992, 7088, 7232, 7248, 42528, 43216, 43264, 43472, 43504, 43600, 44016,
     65296, 66720, 68912, 69734, 69872, 69942, 70096, 70384, 70736, 70864, 71248,
     71360, 71472, 71904, 72016, 72784, 73040, 73120, 92768, 92864, 93008, 120782,
     120792, 120802, 120812, 120822, 123200, 123632, 125264, 130032]"

definition decimal :: "nat \<Rightarrow> nat option" where
  "decimal c = (case find (\<lambda>z. z \<le> c \<and> c < z + 10) unicode_zeros of
                  None \<Rightarrow> None
                | Some z \<Rightarrow> Some (c - z))"

definition is_digit :: "nat \<Rightarrow> bool" where
  "is_digit c = (decimal c \<noteq> None)"

definition digit_val :: "nat \<Rightarrow> nat" where
  "digit_val c = (case decimal c of None \<Rightarrow> 0 | Some v \<Rightarrow> v)"

text \<open>A character range \<open>[a-b]\<close> of a regular expression.\<close>

definition in_range :: "nat \<Rightarrow> nat \<Rightarrow> nat \<Rightarrow> bool" where
  "in_range lo hi c = (lo \<le> c \<and> c \<le> hi)"

subsection \<open>Methods of \<open>str\<close>\<close>

text \<open>\<open>sub in s\<close>\<close>

fun contains :: "ustr \<Rightarrow> ustr \<Rightarrow> bool" where
  "contains sub [] = (sub = [])"
| "contains sub (c # cs) = (take (length sub) (c # cs) = sub \<or> contains sub cs)"

text \<open>\<open>s.replace(old, new)\<close>: every occurrence of \<open>old\<close>, left to right, without
  overlap. For an empty \<open>old\<close> Python puts \<open>new\<close> before every character and at the end.\<close>

function py_replace :: "ustr \<Rightarrow> ustr \<Rightarrow> ustr \<Rightarrow> ustr" where
  "py_replace [] old new = (if old = [] then new else [])"
| "py_replace (c # cs) old new =
     (if old = [] then new @ concat (map (\<lambda>x. x # new) (c # cs))
      else if take (length old) (c # cs) = old
      then new @ py_replace (drop (length old) (c # cs)) old new
      else c # py_replace cs old new)"
  by pat_completeness auto
termination
  by (relation "measure (\<lambda>(s, old, new). length s)") auto

text \<open>\<open>s.split()\<close>: the maximal runs of non-whitespace characters.\<close>

function py_split :: "ustr \<Rightarrow> ustr list" where
  "py_split [] = []"
| "py_split (c # cs) =
     (if is_space c then py_split cs
      else takeWhile (\<lambda>x. \<not> is_space x) (c # cs)
             # py_split (dropWhile (\<lambda>x. \<not> is_space x) cs))"
  by pat_completeness auto
termination
proof (relation "measure length")
  show "wf (measure length)" by simp
next
  fix c :: nat and cs :: ustr
  have "length (dropWhile (\<lambda>x. \<not> is_space x) cs) \<le> length cs"
    by (rule length_dropWhile_le)
  then show "(dropWhile (\<lambda>x. \<not> is_space x) cs, c # cs) \<in> measure length"
    by simp
qed auto

text \<open>\<open>sep.join(xs)\<close>\<close>

fun py_join :: "ustr \<Rightarrow> ustr list \<Rightarrow> ustr" where
  "py_join sep [] = []"
| "py_join sep [x] = x"
| "py_join sep (x # y # ys) = x @ sep @ py_join sep (y # ys)"

text \<open>\<open>s.strip()\<close>\<close>

definition py_strip :: "ustr \<Rightarrow> ustr" where
  "py_strip s = rev (dropWhile is_space (rev (dropWhile is_space s)))"

subsection \<open>Integers and their decimal text\<close>

text \<open>\<open>str(n)\<close> for a natural number, and for a Python \<open>int\<close>.\<close>

fun str_nat :: "nat \<Rightarrow> ustr" where
  "str_nat n = (if n < 10 then [48 + n] else str_nat (n div 10) @ [48 + n mod 10])"

declare str_nat.simps [simp del]

definition py_str :: "int \<Rightarrow> ustr" where
  "py_str i = (if i < 0 then 45 # str_nat (nat (- i)) else str_nat (nat i))"

text \<open>The conversions \<open>%02d\<close> and \<open>%04d\<close>: zeros on the left up to the width.\<close>

definition zero_pad :: "nat \<Rightarrow> ustr \<Rightarrow> ustr" where
  "zero_pad w s = replicate (w - length s) 48 @ s"

text \<open>The value of a string of decimal digits, read left to right.\<close>

definition digits_value :: "ustr \<Rightarrow> nat" where
  "digits_value s = foldl (\<lambda>a c. 10 * a + digit_val c) 0 s"

text \<open>\<open>int(s)\<close> on a string of decimal digits: the empty string raises \<open>ValueError\<close>,
  and so does a string of more than \<open>sys.get_int_max_str_digits()\<close> digits, 4300
  unless the interpreter is configured otherwise (leading zeros count). The other
  spellings that \<open>int\<close> accepts (a sign, blanks around the number, underscores between
  digits) contain a character that is not a digit, and the only call of \<open>int\<close> on a
  string in the source is on one that \<open>re.sub\<close> has left digits only; they are
  rejected here.\<close>

definition int_max_str_digits :: nat where
  "int_max_str_digits = 4300"

definition py_int :: "ustr \<Rightarrow> error + int" where
  "py_int s = (if s \<noteq> [] \<and> list_all is_digit s \<and> length s \<le> int_max_str_digits
               then Inr (int (digits_value s))
               else Inl ValueError)"

section \<open>\<open>datetime\<close>\<close>

record datetime =
  dt_year :: nat
  dt_month :: nat
  dt_day :: nat
  dt_hour :: nat
  dt_minute :: nat
  dt_second :: nat

definition is_leap :: "nat \<Rightarrow> bool" where
  "is_leap y = (y mod 4 = 0 \<and> (y mod 100 \<noteq> 0 \<or> y mod 400 = 0))"

definition days_in_month :: "nat \<Rightarrow> nat \<Rightarrow> nat" where
  "days_in_month y m =
     (if m = 2 then (if is_leap y then 29 else 28)
      else if m = 4 \<or> m = 6 \<or> m = 9 \<or> m = 11 then 30
      else 31)"

text \<open>The constructor \<open>datetime(year, month, day, hour, minute, second)\<close>: it raises
  \<open>ValueError\<close> unless the year is between \<open>MINYEAR\<close> (1) and \<open>MAXYEAR\<close> (9999) and the
  other fields denote a day of that year and a time of day.\<close>

definition datetime_new ::
  "nat \<Rightarrow> nat \<Rightarrow> nat \<Rightarrow> nat \<Rightarrow> nat \<Rightarrow> nat \<Rightarrow> error + datetime" where
  "datetime_new y m d hh mm ss =
     (if 1 \<le> y \<and> y \<le> 9999 \<and> 1 \<le> m \<and> m \<le> 12
         \<and> 1 \<le> d \<and> d \<le> days_in_month y m
         \<and> hh \<le> 23 \<and> mm \<le> 59 \<and> ss \<le> 59
      then Inr \<lparr>dt_year = y, dt_month = m, dt_day = d,
                dt_hour = hh, dt_minute = mm, dt_second = ss\<rparr>
      else Inl ValueError)"

text \<open>\<open>dt.replace(year=y)\<close> builds a new object through the constructor.\<close>

definition replace_year :: "datetime \<Rightarrow> int \<Rightarrow> error + datetime" where
  "replace_year dt y =
     (if y < 0 then Inl ValueError
      else datetime_new (nat y) (dt_month dt) (dt_day dt)
             (dt_hour dt) (dt_minute dt) (dt_second dt))"

text \<open>\<open>str(dt)\<close> of a \<open>datetime\<close> without microseconds is
  \<open>'%04d-%02d-%02d %02d:%02d:%02d'\<close>; \<open>str(dt.date())\<close> is \<open>'%04d-%02d-%02d'\<close>.\<close>

definition str_date :: "datetime \<Rightarrow> ustr" where
  "str_date dt = zero_pad 4 (str_nat (dt_year dt)) @ ascii ''-''
     @ zero_pad 2 (str_nat (dt_month dt)) @ ascii ''-''
     @ zero_pad 2 (str_nat (dt_day dt))"

definition str_datetime :: "datetime \<Rightarrow> ustr" where
  "str_datetime dt = str_date dt @ ascii '' ''
     @ zero_pad 2 (str_nat (dt_hour dt)) @ ascii '':''
     @ zero_pad 2 (str_nat (dt_minute dt)) @ ascii '':''
     @ zero_pad 2 (str_nat (dt_second dt))"

text \<open>The slice \<open>s[:-3]\<close>\<close>

definition drop_last3 :: "ustr \<Rightarrow> ustr" where
  "drop_last3 s = take (length s - 3) s"

subsection \<open>\<open>datetime.strptime\<close>\<close>

text \<open>
  \<open>strptime\<close> turns the format into a regular expression, matches it at the start of the
  text, raises \<open>ValueError\<close> when there is no match or when the match does not reach the
  end of the text, and builds the \<open>datetime\<close> from the groups. The directives that the
  source uses have these expressions:
  \<^item> \<open>%d\<close>: \<open>3[0-1]|[1-2]\d|0[1-9]|[1-9]| [1-9]\<close>
  \<^item> \<open>%m\<close>: \<open>1[0-2]|0[1-9]|[1-9]\<close>
  \<^item> \<open>%Y\<close>: \<open>\d\d\d\d\<close>
  \<^item> \<open>%H\<close>: \<open>2[0-3]|[0-1]\d|\d\<close>
  \<^item> \<open>%M\<close>: \<open>[0-5]\d|\d\<close>

  and a run of whitespace in the format becomes \<open>\s+\<close>. Any other character of the
  format stands for itself (the expression ignores case, which changes nothing for
  \<open>:\<close>, the one such character in the formats of the source). A directive other than
  these five is outside the model and reported as a bad directive.
\<close>

datatype directive = Dir_d | Dir_m | Dir_Y | Dir_H | Dir_M | Spaces | Literal nat

definition directive_of :: "nat \<Rightarrow> directive option" where
  "directive_of c =
     (if c = of_char CHR ''d'' then Some Dir_d
      else if c = of_char CHR ''m'' then Some Dir_m
      else if c = of_char CHR ''Y'' then Some Dir_Y
      else if c = of_char CHR ''H'' then Some Dir_H
      else if c = of_char CHR ''M'' then Some Dir_M
      else None)"

function compile_format :: "ustr \<Rightarrow> error + directive list" where
  "compile_format [] = Inr []"
| "compile_format (c # cs) =
     (if c = of_char CHR ''%'' then
        (case cs of
           [] \<Rightarrow> Inl ValueError
         | k # ks \<Rightarrow>
             (case directive_of k of
                None \<Rightarrow> Inl ValueError
              | Some d \<Rightarrow>
                  (case compile_format ks of
                     Inl e \<Rightarrow> Inl e
                   | Inr ds \<Rightarrow> Inr (d # ds))))
      else if is_space c then
        (case compile_format (dropWhile is_space cs) of
           Inl e \<Rightarrow> Inl e
         | Inr ds \<Rightarrow> Inr (Spaces # ds))
      else
        (case compile_format cs of
           Inl e \<Rightarrow> Inl e
         | Inr ds \<Rightarrow> Inr (Literal c # ds)))"
  by pat_completeness auto
termination
proof (relation "measure length")
  show "wf (measure length)" by simp
next
  fix c :: nat and cs :: ustr
  have "length (dropWhile is_space cs) \<le> length cs"
    by (rule length_dropWhile_le)
  then show "(dropWhile is_space cs, c # cs) \<in> measure length" by simp
qed auto

text \<open>The matches of one or two characters against character classes, with the number
  that \<open>int\<close> reads from the matched text.\<close>

definition one :: "(nat \<Rightarrow> bool) \<Rightarrow> ustr \<Rightarrow> (nat \<times> ustr) list" where
  "one p s = (case s of
                a # r \<Rightarrow> if p a then [(digit_val a, r)] else []
              | _ \<Rightarrow> [])"

definition two :: "(nat \<Rightarrow> bool) \<Rightarrow> (nat \<Rightarrow> bool) \<Rightarrow> ustr \<Rightarrow> (nat \<times> ustr) list" where
  "two p q s = (case s of
                  a # b # r \<Rightarrow>
                    if p a \<and> q b then [(10 * digit_val a + digit_val b, r)] else []
                | _ \<Rightarrow> [])"

definition four_digits :: "ustr \<Rightarrow> (nat \<times> ustr) list" where
  "four_digits s = (case s of
                      a # b # c # d # r \<Rightarrow>
                        if is_digit a \<and> is_digit b \<and> is_digit c \<and> is_digit d
                        then [(digits_value [a, b, c, d], r)] else []
                    | _ \<Rightarrow> [])"

text \<open>Every way in which a directive matches at the start of the text, in the order in
  which the backtracking matcher tries them: the alternatives left to right, and for
  \<open>\s+\<close> the longest run first. Each comes with the number read and the rest of the
  text.\<close>

definition match_directive :: "directive \<Rightarrow> ustr \<Rightarrow> (nat \<times> ustr) list" where
  "match_directive d s =
     (case d of
        Dir_d \<Rightarrow> two (\<lambda>c. c = 51) (in_range 48 49) s
                 @ two (in_range 49 50) is_digit s
                 @ two (\<lambda>c. c = 48) (in_range 49 57) s
                 @ one (in_range 49 57) s
                 @ two (\<lambda>c. c = 32) (in_range 49 57) s
      | Dir_m \<Rightarrow> two (\<lambda>c. c = 49) (in_range 48 50) s
                 @ two (\<lambda>c. c = 48) (in_range 49 57) s
                 @ one (in_range 49 57) s
      | Dir_Y \<Rightarrow> four_digits s
      | Dir_H \<Rightarrow> two (\<lambda>c. c = 50) (in_range 48 51) s
                 @ two (in_range 48 49) is_digit s
                 @ one is_digit s
      | Dir_M \<Rightarrow> two (in_range 48 53) is_digit s
                 @ one is_digit s
      | Spaces \<Rightarrow> map (\<lambda>k. (0, drop k s))
                    (rev [1 ..< Suc (length (takeWhile is_space s))])
      | Literal c \<Rightarrow> (case s of
                        a # r \<Rightarrow> if a = c then [(0, r)] else []
                      | _ \<Rightarrow> []))"

text \<open>The groups found so far. \<open>_strptime\<close> starts from month 1, day 1, hour 0, minute 0
  and no year.\<close>

record parsed =
  p_year :: "nat option"
  p_month :: nat
  p_day :: nat
  p_hour :: nat
  p_minute :: nat

definition no_groups :: parsed where
  "no_groups = \<lparr>p_year = None, p_month = 1, p_day = 1, p_hour = 0, p_minute = 0\<rparr>"

definition store :: "directive \<Rightarrow> nat \<Rightarrow> parsed \<Rightarrow> parsed" where
  "store d v p =
     (case d of
        Dir_d \<Rightarrow> p\<lparr>p_day := v\<rparr>
      | Dir_m \<Rightarrow> p\<lparr>p_month := v\<rparr>
      | Dir_Y \<Rightarrow> p\<lparr>p_year := Some v\<rparr>
      | Dir_H \<Rightarrow> p\<lparr>p_hour := v\<rparr>
      | Dir_M \<Rightarrow> p\<lparr>p_minute := v\<rparr>
      | Spaces \<Rightarrow> p
      | Literal c \<Rightarrow> p)"

fun match_all :: "directive list \<Rightarrow> parsed \<Rightarrow> ustr \<Rightarrow> (parsed \<times> ustr) list" where
  "match_all [] p s = [(p, s)]"
| "match_all (d # ds) p s =
     concat (map (\<lambda>(v, r). match_all ds (store d v p) r) (match_directive d s))"

text \<open>\<open>re.match\<close> returns the first match in that order.\<close>

definition first_match ::
  "directive list \<Rightarrow> parsed \<Rightarrow> ustr \<Rightarrow> (parsed \<times> ustr) option" where
  "first_match ds p s = (case match_all ds p s of [] \<Rightarrow> None | x # _ \<Rightarrow> Some x)"

text \<open>\<open>strptime\<close> raises \<open>ValueError\<close> when the text does not match and when the match
  leaves text over. When no year was parsed the year is 1900, also for 29 February
  (for which \<open>_strptime\<close> computes with 1904 and then sets the year back to 1900), so
  the constructor rejects that day.\<close>

definition strptime :: "ustr \<Rightarrow> ustr \<Rightarrow> error + datetime" where
  "strptime data_string format =
     (case compile_format format of
        Inl e \<Rightarrow> Inl e
      | Inr ds \<Rightarrow>
          (case first_match ds no_groups data_string of
             None \<Rightarrow> Inl ValueError
           | Some (p, rest) \<Rightarrow>
               if rest \<noteq> [] then Inl ValueError
               else datetime_new (case p_year p of None \<Rightarrow> 1900 | Some y \<Rightarrow> y)
                      (p_month p) (p_day p) (p_hour p) (p_minute p) 0))"

section \<open>The date normalizer\<close>

text \<open>The source reads the clock with \<open>datetime.today()\<close> and \<open>datetime.now()\<close>. The
  reading is the parameter \<open>now\<close>; the three readings that one normalization makes are
  taken to give the same date.\<close>

definition get_current_day :: "datetime \<Rightarrow> int" where
  "get_current_day now = int (dt_day now)"

text \<open>\<open>'{:%m}'.format(datetime.now())\<close>: the month as two digits.\<close>

definition get_current_month :: "datetime \<Rightarrow> ustr" where
  "get_current_month now = zero_pad 2 (str_nat (dt_month now))"

definition get_current_year :: "datetime \<Rightarrow> int" where
  "get_current_year now = int (dt_year now)"

text \<open>The two relative markers: \<open>Vchera\<close> (yesterday) is U+0412 U+0447 U+0435 U+0440
  U+0430 and \<open>Segodnya\<close> (today) is U+0421 U+0435 U+0433 U+043E U+0434 U+043D U+044F.\<close>

definition Vchera :: ustr where
  "Vchera = [1042, 1095, 1077, 1088, 1072]"

definition Segodnya :: ustr where
  "Segodnya = [1057, 1077, 1075, 1086, 1076, 1085, 1103]"

text \<open>The dictionary \<open>months\<close>, from the genitive month names (yanvarya, fevralya,
  marta, aprelya, maya, iyunya, iyulya, avgusta, sentyabrya, oktyabrya, noyabrya,
  dekabrya) to the month numbers as text.\<close>

definition months :: "(ustr \<times> ustr) list" where
  "months =
     [([1103, 1085, 1074, 1072, 1088, 1103], ascii ''1''),
      ([1092, 1077, 1074, 1088, 1072, 1083, 1103], ascii ''2''),
      ([1084, 1072, 1088, 1090, 1072], ascii ''3''),
      ([1072, 1087, 1088, 1077, 1083, 1103], ascii ''4''),
      ([1084, 1072, 1103], ascii ''5''),
      ([1080, 1102, 1085, 1103], ascii ''6''),
      ([1080, 1102, 1083, 1103], ascii ''7''),
      ([1072, 1074, 1075, 1091, 1089, 1090, 1072], ascii ''8''),
      ([1089, 1077, 1085, 1090, 1103, 1073, 1088, 1103], ascii ''9''),
      ([1086, 1082, 1090, 1103, 1073, 1088, 1103], ascii ''10''),
      ([1085, 1086, 1103, 1073, 1088, 1103], ascii ''11''),
      ([1076, 1077, 1082, 1072, 1073, 1088, 1103], ascii ''12'')]"

definition replace_relative_day_with_absolute ::
  "datetime \<Rightarrow> ustr \<Rightarrow> ustr \<Rightarrow> int \<Rightarrow> ustr" where
  "replace_relative_day_with_absolute now date relative_day absolute_day =
     (py_str absolute_day @ ascii '' '' @ get_current_month now @ ascii '' ''
        @ py_str (get_current_year now))
     @ py_replace date relative_day []"

definition convert_relative_date_to_absolute :: "datetime \<Rightarrow> ustr \<Rightarrow> ustr" where
  "convert_relative_date_to_absolute now date =
     (let current_day = get_current_day now in
      if contains Vchera date
      then replace_relative_day_with_absolute now date Vchera (current_day - 1)
      else replace_relative_day_with_absolute now date Segodnya current_day)"

text \<open>\<open>date_splitted[1]\<close> raises \<open>IndexError\<close> when there are fewer than two words, and
  \<open>months[...]\<close> raises \<open>KeyError\<close> when the second word is not a month name.\<close>

definition replace_month_name_with_number :: "ustr \<Rightarrow> error + ustr" where
  "replace_month_name_with_number date =
     (let date_splitted = py_split date in
      if length date_splitted \<le> 1 then Inl IndexError
      else case map_of months (date_splitted ! 1) of
             None \<Rightarrow> Inl KeyError
           | Some number \<Rightarrow> Inr (py_join (ascii '' '') (date_splitted[1 := number])))"

definition normalize_date :: "datetime \<Rightarrow> ustr \<Rightarrow> error + ustr" where
  "normalize_date now date =
     (if contains Vchera date \<or> contains Segodnya date then
        (case strptime (convert_relative_date_to_absolute now date)
                (ascii ''%d %m %Y %H:%M'') of
           Inl e \<Rightarrow> Inl e
         | Inr dt \<Rightarrow> Inr (drop_last3 (str_datetime dt)))
      else
        (case replace_month_name_with_number date of
           Inl e \<Rightarrow> Inl e
         | Inr date' \<Rightarrow>
             if contains (ascii '':'') date' then
               (case strptime date' (ascii ''%d %m %H:%M'') of
                  Inl e \<Rightarrow> Inl e
                | Inr dt \<Rightarrow>
                    (case replace_year dt (get_current_year now) of
                       Inl e \<Rightarrow> Inl e
                     | Inr dt' \<Rightarrow> Inr (drop_last3 (str_datetime dt'))))
             else
               (case strptime date' (ascii ''%d %m %Y'') of
                  Inl e \<Rightarrow> Inl e
                | Inr dt \<Rightarrow> Inr (str_date dt))))"

text \<open>The two forms of a normalized date. In a pattern \<open>D\<close> stands for one of the
  digits 0 to 9 and every other character for itself.\<close>

fun shape :: "string \<Rightarrow> ustr \<Rightarrow> bool" where
  "shape [] [] = True"
| "shape (p # ps) (c # cs) =
     ((if p = CHR ''D'' then in_range 48 57 c else c = of_char p) \<and> shape ps cs)"
| "shape _ _ = False"

definition canonical :: "ustr \<Rightarrow> bool" where
  "canonical s = (shape ''DDDD-DD-DD DD:DD'' s \<or> shape ''DDDD-DD-DD'' s)"

section \<open>The fields of an ad\<close>

text \<open>
  The markup is parsed by BeautifulSoup, which is not part of the repository. An ad
  node is modelled by what the three \<open>find\<close> calls of the source return on it: the
  anchor with \<open>itemprop="url"\<close>, the span of class \<open>snippet-price\<close> and the div of class
  \<open>snippet-date-info\<close>, each of which may be missing (\<open>None\<close>). A child of a tag is a text
  or another tag.
\<close>

datatype node = Text ustr | Element

record anchor =
  a_contents :: "node list"
  a_href :: "ustr option"

record date_node =
  data_tooltip :: "ustr option"
  d_contents :: "node list"

record ad =
  url_anchor :: "anchor option"
  price_span :: "node list option"
  date_info :: "date_node option"

text \<open>An attribute of \<open>None\<close> raises \<open>AttributeError\<close>, an index into \<open>None\<close> raises
  \<open>TypeError\<close>, \<open>contents[0]\<close> of a tag without children raises \<open>IndexError\<close>, a missing
  attribute of a tag raises \<open>KeyError\<close>, and a string method or \<open>re.sub\<close> on a child
  that is a tag raises \<open>TypeError\<close>.\<close>

definition get_title :: "ad \<Rightarrow> error + ustr" where
  "get_title a =
     (case url_anchor a of
        None \<Rightarrow> Inl AttributeError
      | Some anchor \<Rightarrow>
          (case a_contents anchor of
             [] \<Rightarrow> Inl IndexError
           | Text t # _ \<Rightarrow> Inr (py_strip t)
           | Element # _ \<Rightarrow> Inl TypeError))"

definition get_link :: "ad \<Rightarrow> error + ustr" where
  "get_link a =
     (let base_url = ascii ''https://www.avito.ru'' in
      case url_anchor a of
        None \<Rightarrow> Inl TypeError
      | Some anchor \<Rightarrow>
          (case a_href anchor of
             None \<Rightarrow> Inl KeyError
           | Some href \<Rightarrow> Inr (base_url @ href)))"

text \<open>\<open>re.sub('[^\d]', '', price_str)\<close> keeps the decimal digits. The \<open>ValueError\<close> of
  \<open>int\<close> is caught and turned into \<open>None\<close>.\<close>

definition get_price :: "ad \<Rightarrow> error + int option" where
  "get_price a =
     (case price_span a of
        None \<Rightarrow> Inl AttributeError
      | Some contents \<Rightarrow>
          (case contents of
             [] \<Rightarrow> Inl IndexError
           | Element # _ \<Rightarrow> Inl TypeError
           | Text price_str # _ \<Rightarrow>
               (case py_int (filter is_digit price_str) of
                  Inr n \<Rightarrow> Inr (Some n)
                | Inl e \<Rightarrow> if e = ValueError then Inr None else Inl e)))"

definition get_date :: "ad \<Rightarrow> error + ustr" where
  "get_date a =
     (case date_info a of
        None \<Rightarrow> Inl AttributeError
      | Some date_node \<Rightarrow>
          (case data_tooltip date_node of
             None \<Rightarrow> Inl KeyError
           | Some tooltip \<Rightarrow>
               if py_strip tooltip \<noteq> []
               then Inr (py_replace (py_strip tooltip) [160] (ascii '' ''))
               else (case d_contents date_node of
                       [] \<Rightarrow> Inl IndexError
                     | Text date # _ \<Rightarrow> Inr (py_replace (py_strip date) [160] (ascii '' ''))
                     | Element # _ \<Rightarrow> Inl TypeError)))"

text \<open>The dictionary that \<open>agregate_ad_info\<close> returns. Its values are computed in the
  order of the keys, and the first exception leaves the function.\<close>

record ad_info =
  Title :: ustr
  Link :: ustr
  Price :: "int option"
  Date :: ustr

definition agregate_ad_info :: "datetime \<Rightarrow> ad \<Rightarrow> error + ad_info" where
  "agregate_ad_info now a =
     (case get_title a of
        Inl e \<Rightarrow> Inl e
      | Inr title \<Rightarrow>
          (case get_link a of
             Inl e \<Rightarrow> Inl e
           | Inr link \<Rightarrow>
               (case get_price a of
                  Inl e \<Rightarrow> Inl e
                | Inr price \<Rightarrow>
                    (case get_date a of
                       Inl e \<Rightarrow> Inl e
                     | Inr date \<Rightarrow>
                         (case normalize_date now date of
                            Inl e \<Rightarrow> Inl e
                          | Inr normalized \<Rightarrow>
                              Inr \<lparr>Title = title, Link = link, Price = price,
                                    Date = normalized\<rparr>)))))"

section \<open>The search URL\<close>

text \<open>\<open>urllib.parse.quote\<close> with its defaults: the text is encoded in UTF-8, and every
  byte other than an ASCII letter, a digit and \<open>_.-~/\<close> is written \<open>%XX\<close>. A surrogate
  code point cannot be encoded and raises \<open>UnicodeEncodeError\<close> (numbers from 0x110000
  on are not code points and never occur in a \<open>str\<close>).\<close>

definition utf8_encode :: "nat \<Rightarrow> error + nat list" where
  "utf8_encode c =
     (if c < 128 then Inr [c]
      else if c < 2048 then Inr [192 + c div 64, 128 + c mod 64]
      else if c < 65536 then
        (if 55296 \<le> c \<and> c \<le> 57343 then Inl UnicodeEncodeError
         else Inr [224 + c div 4096, 128 + c div 64 mod 64, 128 + c mod 64])
      else if c < 1114112 then
        Inr [240 + c div 262144, 128 + c div 4096 mod 64, 128 + c div 64 mod 64,
             128 + c mod 64]
      else Inl UnicodeEncodeError)"

definition hex_digit :: "nat \<Rightarrow> nat" where
  "hex_digit k = (if k < 10 then 48 + k else 55 + k)"

definition always_safe :: "nat \<Rightarrow> bool" where
  "always_safe b = (in_range 65 90 b \<or> in_range 97 122 b \<or> in_range 48 57 b
                    \<or> b \<in> set (ascii ''_.-~''))"

definition quote_byte :: "nat \<Rightarrow> ustr" where
  "quote_byte b =
     (if always_safe b \<or> b = of_char CHR ''/'' then [b]
      else [of_char CHR ''%'', hex_digit (b div 16), hex_digit (b mod 16)])"

fun quote :: "ustr \<Rightarrow> error + ustr" where
  "quote [] = Inr []"
| "quote (c # cs) =
     (case utf8_encode c of
        Inl e \<Rightarrow> Inl e
      | Inr bytes \<Rightarrow>
          (case quote cs of
             Inl e \<Rightarrow> Inl e
           | Inr rest \<Rightarrow> Inr (concat (map quote_byte bytes) @ rest)))"

text \<open>The two dictionaries of \<open>generate_search_url\<close>. A key is \<open>None\<close> or a string.\<close>

definition sort_values :: "(ustr option \<times> ustr) list" where
  "sort_values = [(Some (ascii ''date''), ascii ''104''),
                  (Some (ascii ''price''), ascii ''1''),
                  (Some (ascii ''price_desc''), ascii ''2''),
                  (None, ascii ''101'')]"

definition owners :: "(ustr option \<times> ustr) list" where
  "owners = [(Some (ascii ''private''), ascii ''1''),
             (Some (ascii ''company''), ascii ''2''),
             (None, ascii ''0'')]"

text \<open>\<open>int(b)\<close> of a truth value, as text.\<close>

definition str_of_bool :: "bool \<Rightarrow> ustr" where
  "str_of_bool b = py_str (if b then 1 else 0)"

definition generate_search_url ::
  "ustr \<Rightarrow> ustr option \<Rightarrow> bool \<Rightarrow> bool \<Rightarrow> ustr option \<Rightarrow> error + ustr" where
  "generate_search_url query sort_by by_title with_images owner =
     (case map_of sort_values sort_by of
        None \<Rightarrow> Inl ValueError
      | Some sort_value \<Rightarrow>
          (case map_of owners owner of
             None \<Rightarrow> Inl ValueError
           | Some owner_value \<Rightarrow>
               (case quote query of
                  Inl e \<Rightarrow> Inl e
                | Inr urlencoded_query \<Rightarrow>
                    Inr (ascii ''https://www.avito.ru/moskva?s='' @ sort_value
                         @ ascii ''&bt='' @ str_of_bool by_title
                         @ ascii ''&q='' @ urlencoded_query
                         @ ascii ''&i='' @ str_of_bool with_images
                         @ ascii ''&user='' @ owner_value
                         @ ascii ''&p={}''))))"

section \<open>Fetching pages\<close>

text \<open>
  A page is modelled by what the three searches of the source find in its markup:
  whether there is a div whose text starts with the "nothing found" message, the ads
  that \<open>find_all_previous\<close> returns from the header of the block of related ads when
  there is such a header, and the ads that \<open>find_all\<close> returns on the whole page.
\<close>

record page =
  nothing_found :: bool
  extra_block_header :: "ad list option"
  item_table_wrappers :: "ad list"

text \<open>The answer of \<open>requests.get\<close>: its \<open>url\<close>, the final URL after redirects, and its
  \<open>text\<close>, the body.\<close>

record response =
  resp_url :: ustr
  resp_text :: page

text \<open>
  The network is a function from the number of requests made before and the URL
  requested to the answer. What the program does to the outside is recorded in a
  trace: the requests, the pauses, and the records handed to the caller.
\<close>

type_synonym web = "nat \<Rightarrow> ustr \<Rightarrow> response"

datatype event = Request ustr | Sleep int | Emit ad_info

fun is_request :: "event \<Rightarrow> bool" where
  "is_request (Request u) = True"
| "is_request _ = False"

definition n_requests :: "event list \<Rightarrow> nat" where
  "n_requests tr = length (filter is_request tr)"

definition is_page_exists :: "page \<Rightarrow> bool" where
  "is_page_exists p = (\<not> nothing_found p)"

definition get_ads_from_page :: "page \<Rightarrow> ad list" where
  "get_ads_from_page p =
     (case extra_block_header p of
        Some previous \<Rightarrow> previous
      | None \<Rightarrow> item_table_wrappers p)"

definition fetch_page :: "web \<Rightarrow> ustr \<Rightarrow> event list \<Rightarrow> (error + page) \<times> event list" where
  "fetch_page web page_url tr =
     (let response = web (n_requests tr) page_url;
          tr' = tr @ [Request page_url]
      in if resp_url response = ascii ''https://www.avito.ru/blocked''
         then (Inl TooManyRequests, tr')
         else (Inr (resp_text response), tr'))"

text \<open>
  \<open>search_url.format(page_number)\<close>. The model covers the templates whose replacement
  fields are all \<open>{}\<close>: the first is replaced by the number and a second one raises
  \<open>IndexError\<close>; \<open>{{\<close> and \<open>}}\<close> stand for a brace; a brace on its own raises
  \<open>ValueError\<close>. A field with a name, a conversion or a format specification is outside
  the model, which is reported as \<open>Unmodelled\<close>.
\<close>

datatype format_error = Python error | Unmodelled

fun format_fields :: "ustr \<Rightarrow> ustr list \<Rightarrow> format_error + ustr" where
  "format_fields [] args = Inr []"
| "format_fields [c] args =
     (if c = of_char CHR ''{'' \<or> c = of_char CHR ''}'' then Inl (Python ValueError)
      else Inr [c])"
| "format_fields (c # d # s) args =
     (if c = of_char CHR ''{'' then
        (if d = of_char CHR ''{'' then map_sum id ((#) c) (format_fields s args)
         else if d = of_char CHR ''}'' then
           (case args of
              [] \<Rightarrow> Inl (Python IndexError)
            | a # as \<Rightarrow> map_sum id ((@) a) (format_fields s as))
         else Inl Unmodelled)
      else if c = of_char CHR ''}'' then
        (if d = of_char CHR ''}'' then map_sum id ((#) c) (format_fields s args)
         else Inl (Python ValueError))
      else map_sum id ((#) c) (format_fields (d # s) args))"

definition format_page_number :: "ustr \<Rightarrow> nat \<Rightarrow> format_error + ustr" where
  "format_page_number search_url page_number =
     format_fields search_url [str_nat page_number]"

text \<open>\<open>time.sleep(pause)\<close> when \<open>pause\<close> is not \<open>None\<close>; a negative duration raises
  \<open>ValueError\<close>.\<close>

definition sleep :: "int option \<Rightarrow> event list \<Rightarrow> (error + unit) \<times> event list" where
  "sleep pause tr =
     (case pause of
        None \<Rightarrow> (Inr (), tr)
      | Some seconds \<Rightarrow>
          if seconds < 0 then (Inl ValueError, tr) else (Inr (), tr @ [Sleep seconds]))"

subsection \<open>The generator \<open>get_pages\<close>\<close>

text \<open>
  A generator runs when the consumer asks for the next element. Its state between two
  such calls is: not started, suspended at the \<open>yield\<close> with the value of
  \<open>page_number\<close>, or finished. One call gives an element, the end of the sequence or
  an exception.
\<close>

datatype pages_state = Not_started | At_yield nat | Finished

datatype outcome = Done | Failed format_error

datatype next_page = Yield page pages_state | Stop | Raise format_error

text \<open>The fetch of a numbered page, followed by the test of the \<open>while\<close> loop.\<close>

definition fetch_and_test ::
  "web \<Rightarrow> ustr \<Rightarrow> nat \<Rightarrow> event list \<Rightarrow> next_page \<times> event list" where
  "fetch_and_test web search_url page_number tr =
     (case format_page_number search_url page_number of
        Inl e \<Rightarrow> (Raise e, tr)
      | Inr page_url \<Rightarrow>
          (case fetch_page web page_url tr of
             (Inl e, tr') \<Rightarrow> (Raise (Python e), tr')
           | (Inr page, tr') \<Rightarrow>
               if is_page_exists page then (Yield page (At_yield page_number), tr')
               else (Stop, tr')))"

definition get_pages_next ::
  "web \<Rightarrow> ustr \<Rightarrow> int option \<Rightarrow> pages_state \<Rightarrow> event list \<Rightarrow> next_page \<times> event list" where
  "get_pages_next web search_url pause st tr =
     (case st of
        Finished \<Rightarrow> (Stop, tr)
      | Not_started \<Rightarrow> fetch_and_test web search_url 1 tr
      | At_yield page_number \<Rightarrow>
          (case sleep pause tr of
             (Inl e, tr') \<Rightarrow> (Raise (Python e), tr')
           | (Inr _, tr') \<Rightarrow> fetch_and_test web search_url (page_number + 1) tr'))"

text \<open>\<open>list(get_pages(search_url, pause))\<close>: the generator consumed to its end. The
  result is the pages, how the sequence ended and the trace; \<open>None\<close> when the sequence
  never ends.\<close>

partial_function (option) get_pages_from ::
  "web \<Rightarrow> ustr \<Rightarrow> int option \<Rightarrow> pages_state \<Rightarrow> event list \<Rightarrow> page list
     \<Rightarrow> (page list \<times> outcome \<times> event list) option" where
  "get_pages_from web search_url pause st tr pages =
     (case get_pages_next web search_url pause st tr of
        (Yield p st', tr') \<Rightarrow> get_pages_from web search_url pause st' tr' (pages @ [p])
      | (Stop, tr') \<Rightarrow> Some (pages, Done, tr')
      | (Raise e, tr') \<Rightarrow> Some (pages, Failed e, tr'))"

definition get_pages ::
  "web \<Rightarrow> ustr \<Rightarrow> int option \<Rightarrow> (page list \<times> outcome \<times> event list) option" where
  "get_pages web search_url pause = get_pages_from web search_url pause Not_started [] []"

section \<open>The sequence of ads\<close>

text \<open>The inner loop of \<open>get_all_ads\<close>: each ad of the page is aggregated and handed to
  the caller; an exception ends the loop. The clock is read when an ad is aggregated;
  \<open>clock n\<close> is its reading when the trace has \<open>n\<close> events.\<close>

fun yield_ads ::
  "(nat \<Rightarrow> datetime) \<Rightarrow> ad list \<Rightarrow> event list \<Rightarrow> error option \<times> event list" where
  "yield_ads clock [] tr = (None, tr)"
| "yield_ads clock (a # ads) tr =
     (case agregate_ad_info (clock (length tr)) a of
        Inl e \<Rightarrow> (Some e, tr)
      | Inr info \<Rightarrow> yield_ads clock ads (tr @ [Emit info]))"

text \<open>The outer loop, consumed to its end: the outcome and the trace, or \<open>None\<close> when
  the sequence never ends.\<close>

partial_function (option) get_all_ads_from ::
  "web \<Rightarrow> (nat \<Rightarrow> datetime) \<Rightarrow> ustr \<Rightarrow> int option \<Rightarrow> pages_state \<Rightarrow> event list
     \<Rightarrow> (outcome \<times> event list) option" where
  "get_all_ads_from web clock search_url pause st tr =
     (case get_pages_next web search_url pause st tr of
        (Stop, tr') \<Rightarrow> Some (Done, tr')
      | (Raise e, tr') \<Rightarrow> Some (Failed e, tr')
      | (Yield p st', tr') \<Rightarrow>
          (let ads = get_ads_from_page p in
           if ads = [] then Some (Done, tr')
           else (case yield_ads clock ads tr' of
                   (Some e, tr'') \<Rightarrow> Some (Failed (Python e), tr'')
                 | (None, tr'') \<Rightarrow>
                     get_all_ads_from web clock search_url pause st' tr'')))"

definition get_all_ads ::
  "web \<Rightarrow> (nat \<Rightarrow> datetime) \<Rightarrow> ustr \<Rightarrow> ustr option \<Rightarrow> bool \<Rightarrow> bool \<Rightarrow> ustr option
     \<Rightarrow> int option \<Rightarrow> (outcome \<times> event list) option" where
  "get_all_ads web clock query sort_by by_title with_images owner pause =
     (case generate_search_url query sort_by by_title with_images owner of
        Inl e \<Rightarrow> Some (Failed (Python e), [])
      | Inr search_url \<Rightarrow> get_all_ads_from web clock search_url pause Not_started [])"

text \<open>The records and the requests of a trace.\<close>

fun emitted :: "event list \<Rightarrow> ad_info list" where
  "emitted [] = []"
| "emitted (Emit info # tr) = info # emitted tr"
| "emitted (_ # tr) = emitted tr"

fun requested :: "event list \<Rightarrow> ustr list" where
  "requested [] = []"
| "requested (Request u # tr) = u # requested tr"
| "requested (_ # tr) = requested tr"

section \<open>Notions for the properties of a run\<close>

text \<open>The state of the generator \<open>get_pages\<close> after it has yielded \<open>i\<close> pages.\<close>

definition state_after :: "nat \<Rightarrow> pages_state" where
  "state_after i = (if i = 0 then Not_started else At_yield i)"

text \<open>A pause that \<open>time.sleep\<close> accepts.\<close>

definition valid_pause :: "int option \<Rightarrow> bool" where
  "valid_pause pause = (case pause of None \<Rightarrow> True | Some seconds \<Rightarrow> 0 \<le> seconds)"

text \<open>An answer that is not the block page and carries a page of results.\<close>

definition page_served :: "response \<Rightarrow> bool" where
  "page_served r = (resp_url r \<noteq> ascii ''https://www.avito.ru/blocked''
                    \<and> is_page_exists (resp_text r))"

text \<open>An ad that aggregates into a record whatever the clock reads.\<close>

definition ad_ok :: "(nat \<Rightarrow> datetime) \<Rightarrow> ad \<Rightarrow> bool" where
  "ad_ok clock a = (\<forall>t. \<exists>info. agregate_ad_info (clock t) a = Inr info)"

text \<open>An answer from which \<open>get_all_ads\<close> goes on to the next page: a page of results
  with at least one ad, all of whose ads aggregate.\<close>

definition good_page :: "(nat \<Rightarrow> datetime) \<Rightarrow> response \<Rightarrow> bool" where
  "good_page clock r = (page_served r \<and> get_ads_from_page (resp_text r) \<noteq> []
                        \<and> (\<forall>a\<in>set (get_ads_from_page (resp_text r)). ad_ok clock a))"

section \<open>Example data\<close>

text \<open>An ad with a title, a link, a price and the date \<open>10 yanvarya 2019\<close>; and the same
  ad with the date \<open>10 jan 2019\<close>, whose month is not in the dictionary.\<close>

definition example_ad :: ad where
  "example_ad =
     \<lparr>url_anchor = Some \<lparr>a_contents = [Text (ascii '' Audi TT '')],
                          a_href = Some (ascii ''/moskva/avtomobili/audi_tt_1'')\<rparr>,
      price_span = Some [Text (ascii ''1 234 567 '' @ [8381])],
      date_info = Some \<lparr>data_tooltip =
                           Some (ascii ''10 '' @ [1103, 1085, 1074, 1072, 1088, 1103]
                                 @ ascii '' 2019''),
                         d_contents = []\<rparr>\<rparr>"

definition example_info :: ad_info where
  "example_info =
     \<lparr>Title = ascii ''Audi TT'',
      Link = ascii ''https://www.avito.ru/moskva/avtomobili/audi_tt_1'',
      Price = Some 1234567,
      Date = ascii ''2019-01-10''\<rparr>"

definition bad_ad :: ad where
  "bad_ad = example_ad\<lparr>date_info :=
              Some \<lparr>data_tooltip = Some (ascii ''10 jan 2019''), d_contents = []\<rparr>\<rparr>"

text \<open>Pages: one with an ad, one with the "nothing found" message, one with neither,
  and one whose second ad has the unknown month.\<close>

definition results_page :: page where
  "results_page = \<lparr>nothing_found = False, extra_block_header = None,
                    item_table_wrappers = [example_ad]\<rparr>"

definition nothing_page :: page where
  "nothing_page = \<lparr>nothing_found = True, extra_block_header = None,
                    item_table_wrappers = []\<rparr>"

definition empty_page :: page where
  "empty_page = \<lparr>nothing_found = False, extra_block_header = None,
                  item_table_wrappers = []\<rparr>"

definition bad_page :: page where
  "bad_page = \<lparr>nothing_found = False, extra_block_header = None,
                item_table_wrappers = [example_ad, bad_ad, example_ad]\<rparr>"

text \<open>Networks that answer the first request with one page and every later request
  with another, or with a redirect to the block page.\<close>

definition web_then :: "page \<Rightarrow> page \<Rightarrow> web" where
  "web_then first later n u = \<lparr>resp_url = u, resp_text = (if n = 0 then first else later)\<rparr>"

definition web_then_blocked :: "page \<Rightarrow> web" where
  "web_then_blocked first n u =
     (if n = 0 then \<lparr>resp_url = u, resp_text = first\<rparr>
      else \<lparr>resp_url = ascii ''https://www.avito.ru/blocked'', resp_text = first\<rparr>)"

definition example_clock :: "nat \<Rightarrow> datetime" where
  "example_clock t = \<lparr>dt_year = 2019, dt_month = 1, dt_day = 11, dt_hour = 8,
                       dt_minute = 30, dt_second = 0\<rparr>"

text \<open>The URL that \<open>generate_search_url\<close> builds for the query \<open>audi tt\<close> without
  options, and the URL of its page \<open>n\<close>.\<close>

definition example_url :: ustr where
  "example_url = ascii ''https://www.avito.ru/moskva?s=101&bt=0&q=audi%20tt&i=0&user=0&p={}''"

definition example_page_url :: "nat \<Rightarrow> ustr" where
  "example_page_url n =
     ascii ''https://www.avito.ru/moskva?s=101&bt=0&q=audi%20tt&i=0&user=0&p='' @ str_nat n"

section \<open>Properties of the library model\<close>

subsection \<open>Decimal text and the forms of a normalized date\<close>

lemma shape_append: "shape p s \<Longrightarrow> shape q t \<Longrightarrow> shape (p @ q) (s @ t)"
  by (induction p s rule: shape.induct) auto

lemma shape_digits:
  "length s = k \<Longrightarrow> list_all (in_range 48 57) s \<Longrightarrow> shape (replicate k CHR ''D'') s"
  by (induction s arbitrary: k) auto

lemma str_nat_digits: "list_all (in_range 48 57) (str_nat n)"
proof (induction n rule: str_nat.induct)
  case (1 n)
  show ?case
  proof (cases "n < 10")
    case True
    then show ?thesis by (simp add: str_nat.simps [of n] in_range_def)
  next
    case False
    have "n mod 10 < 10" by simp
    then have "in_range 48 57 (48 + n mod 10)" unfolding in_range_def by linarith
    with False 1 show ?thesis by (simp add: str_nat.simps [of n])
  qed
qed

lemma str_nat_length: "0 < k \<Longrightarrow> n < 10 ^ k \<Longrightarrow> length (str_nat n) \<le> k"
proof (induction n arbitrary: k rule: str_nat.induct)
  case (1 n)
  show ?case
  proof (cases "n < 10")
    case True
    with 1(2) show ?thesis by (simp add: str_nat.simps [of n])
  next
    case False
    then obtain j where j: "k = Suc j" using 1(2) by (cases k) auto
    have "0 < j" using False 1(3) j by (cases j) auto
    moreover have "n div 10 < 10 ^ j" using 1(3) j by (simp add: less_mult_imp_div_less mult.commute)
    ultimately have "length (str_nat (n div 10)) \<le> j" using 1(1) [OF False] by blast
    with False j show ?thesis by (simp add: str_nat.simps [of n])
  qed
qed

lemma zero_pad_shape:
  assumes "0 < k" "n < 10 ^ k"
  shows "shape (replicate k CHR ''D'') (zero_pad k (str_nat n))"
proof -
  have l: "length (str_nat n) \<le> k" using assms by (rule str_nat_length)
  have "list_all (in_range 48 57) (zero_pad k (str_nat n))"
    using str_nat_digits [of n] by (auto simp: zero_pad_def list_all_iff in_range_def)
  moreover have "length (zero_pad k (str_nat n)) = k" using l by (simp add: zero_pad_def)
  ultimately show ?thesis by (simp add: shape_digits)
qed

lemma zero_pad2_shape: "n \<le> 99 \<Longrightarrow> shape ''DD'' (zero_pad 2 (str_nat n))"
  using zero_pad_shape [of 2 n] by (simp add: numeral_2_eq_2)

lemma zero_pad4_shape: "n \<le> 9999 \<Longrightarrow> shape ''DDDD'' (zero_pad 4 (str_nat n))"
  using zero_pad_shape [of 4 n] by (simp add: numeral_Bit0 [of "num.Bit0 num.One"] numeral_2_eq_2)


lemma datetime_new_ranges:
  assumes "datetime_new y m d hh mm ss = Inr dt"
  shows "dt_year dt \<le> 9999 \<and> dt_month dt \<le> 12 \<and> dt_day dt \<le> 31
     \<and> dt_hour dt \<le> 23 \<and> dt_minute dt \<le> 59 \<and> dt_second dt \<le> 59"
proof -
  have "days_in_month y m \<le> 31" by (simp add: days_in_month_def)
  with assms show ?thesis
    by (auto simp: datetime_new_def split: if_splits)
qed

lemma strptime_ranges:
  assumes "strptime s f = Inr dt"
  shows "dt_year dt \<le> 9999 \<and> dt_month dt \<le> 12 \<and> dt_day dt \<le> 31
     \<and> dt_hour dt \<le> 23 \<and> dt_minute dt \<le> 59 \<and> dt_second dt \<le> 59"
  using assms
  by (auto simp: strptime_def split: sum.splits option.splits if_splits prod.splits
           dest!: datetime_new_ranges)

lemma replace_year_ranges:
  assumes "replace_year dt0 y = Inr dt"
  shows "dt_year dt \<le> 9999 \<and> dt_month dt \<le> 12 \<and> dt_day dt \<le> 31
     \<and> dt_hour dt \<le> 23 \<and> dt_minute dt \<le> 59 \<and> dt_second dt \<le> 59"
  using assms
  by (auto simp: replace_year_def split: if_splits dest!: datetime_new_ranges)

lemma str_date_shape:
  assumes "dt_year dt \<le> 9999" "dt_month dt \<le> 12" "dt_day dt \<le> 31"
  shows "shape ''DDDD-DD-DD'' (str_date dt)"
proof -
  have 1: "shape ''DDDD'' (zero_pad 4 (str_nat (dt_year dt)))"
    using assms by (simp add: zero_pad4_shape)
  have 2: "shape ''DD'' (zero_pad 2 (str_nat (dt_month dt)))"
    using assms by (simp add: zero_pad2_shape)
  have 3: "shape ''DD'' (zero_pad 2 (str_nat (dt_day dt)))"
    using assms by (simp add: zero_pad2_shape)
  have d: "shape ''-'' (ascii ''-'')" by (simp add: ascii_def)
  have "shape (''DDDD'' @ ''-'' @ ''DD'' @ ''-'' @ ''DD'') (str_date dt)"
    unfolding str_date_def by (intro shape_append 1 2 3 d)
  then show ?thesis by simp
qed

lemma shape_length: "shape p s \<Longrightarrow> length s = length p"
  by (induction p s rule: shape.induct) auto

lemma drop_last3_str_datetime:
  assumes "dt_second dt \<le> 59"
  shows "drop_last3 (str_datetime dt) = str_date dt @ ascii '' ''
     @ zero_pad 2 (str_nat (dt_hour dt)) @ ascii '':''
     @ zero_pad 2 (str_nat (dt_minute dt))"
proof -
  have "length (zero_pad 2 (str_nat (dt_second dt))) = 2"
    using zero_pad2_shape [of "dt_second dt"] assms shape_length by fastforce
  then show ?thesis
    by (simp add: drop_last3_def str_datetime_def ascii_def)
qed

lemma str_datetime_shape:
  assumes "dt_year dt \<le> 9999" "dt_month dt \<le> 12" "dt_day dt \<le> 31"
    "dt_hour dt \<le> 23" "dt_minute dt \<le> 59" "dt_second dt \<le> 59"
  shows "shape ''DDDD-DD-DD DD:DD'' (drop_last3 (str_datetime dt))"
proof -
  have 1: "shape ''DDDD-DD-DD'' (str_date dt)"
    using assms by (simp add: str_date_shape)
  have 2: "shape ''DD'' (zero_pad 2 (str_nat (dt_hour dt)))"
    using assms by (simp add: zero_pad2_shape)
  have 3: "shape ''DD'' (zero_pad 2 (str_nat (dt_minute dt)))"
    using assms by (simp add: zero_pad2_shape)
  have b: "shape '' '' (ascii '' '')" by (simp add: ascii_def)
  have c: "shape '':'' (ascii '':'')" by (simp add: ascii_def)
  have "shape (''DDDD-DD-DD'' @ '' '' @ ''DD'' @ '':'' @ ''DD'')
          (drop_last3 (str_datetime dt))"
    unfolding drop_last3_str_datetime [OF assms(6)] by (intro shape_append 1 2 3 b c)
  then show ?thesis by simp
qed

lemma normalize_date_canonical:
  assumes "normalize_date now date = Inr s"
  shows "canonical s"
proof (cases "contains Vchera date \<or> contains Segodnya date")
  case True
  with assms obtain dt where
    dt: "strptime (convert_relative_date_to_absolute now date) (ascii ''%d %m %Y %H:%M'') = Inr dt"
    and s: "s = drop_last3 (str_datetime dt)"
    by (auto simp: normalize_date_def split: sum.splits)
  from strptime_ranges [OF dt] show ?thesis
    unfolding canonical_def s by (simp add: str_datetime_shape)
next
  case False
  with assms obtain date' where
    d': "replace_month_name_with_number date = Inr date'"
    by (auto simp: normalize_date_def split: sum.splits)
  show ?thesis
  proof (cases "contains (ascii '':'') date'")
    case True
    with assms False d' obtain dt dt' where
      dt: "strptime date' (ascii ''%d %m %H:%M'') = Inr dt"
      and dt': "replace_year dt (get_current_year now) = Inr dt'"
      and s: "s = drop_last3 (str_datetime dt')"
      by (auto simp: normalize_date_def split: sum.splits)
    from replace_year_ranges [OF dt'] show ?thesis
      unfolding canonical_def s by (simp add: str_datetime_shape)
  next
    case nc: False
    with assms False d' obtain dt where
      dt: "strptime date' (ascii ''%d %m %Y'') = Inr dt"
      and s: "s = str_date dt"
      by (auto simp: normalize_date_def split: sum.splits)
    from strptime_ranges [OF dt] show ?thesis
      unfolding canonical_def s by (simp add: str_date_shape)
  qed
qed


lemma decimal_ascii: "k < 10 \<Longrightarrow> decimal (48 + k) = Some k"
  by (simp add: decimal_def unicode_zeros_def)

lemma is_digit_ascii: "k < 10 \<Longrightarrow> is_digit (48 + k)"
  by (simp add: is_digit_def decimal_ascii)

lemma digit_val_ascii: "k < 10 \<Longrightarrow> digit_val (48 + k) = k"
  by (simp add: digit_val_def decimal_ascii)

lemma in_range_digit: "in_range 48 57 c \<Longrightarrow> is_digit c"
proof -
  assume "in_range 48 57 c"
  then have "c = 48 + (c - 48)" "c - 48 < 10"
    unfolding in_range_def by auto
  then show ?thesis using is_digit_ascii by metis
qed

lemma whitespace_not_digit: "list_all (\<lambda>c. \<not> is_digit c) whitespace"
  by (simp add: whitespace_def is_digit_def decimal_def unicode_zeros_def)

lemma space_not_digit: "is_space c \<Longrightarrow> \<not> is_digit c"
  using whitespace_not_digit by (simp add: is_space_def list_all_iff)

lemma colon_not_digit: "\<not> is_digit 58"
  by (simp add: is_digit_def decimal_def unicode_zeros_def)

lemma digits_value_snoc: "digits_value (s @ [c]) = 10 * digits_value s + digit_val c"
  by (simp add: digits_value_def)

lemma digits_value_str_nat: "digits_value (str_nat n) = n"
proof (induction n rule: str_nat.induct)
  case (1 n)
  show ?case
  proof (cases "n < 10")
    case True
    then show ?thesis
      by (simp add: str_nat.simps [of n] digits_value_def digit_val_ascii)
  next
    case False
    have "digit_val (48 + n mod 10) = n mod 10" by (simp add: digit_val_ascii)
    with False 1 show ?thesis
      by (simp add: str_nat.simps [of n] digits_value_snoc)
  qed
qed

lemma str_nat_inj: "str_nat a = str_nat b \<Longrightarrow> a = b"
  by (metis digits_value_str_nat)

lemma str_nat_1: "n < 10 \<Longrightarrow> str_nat n = [48 + n]"
  by (simp add: str_nat.simps [of n])

lemma str_nat_2: "10 \<le> n \<Longrightarrow> n < 100 \<Longrightarrow> str_nat n = [48 + n div 10, 48 + n mod 10]"
  by (simp add: str_nat.simps [of n] str_nat_1)

lemma str_nat_4:
  assumes "1000 \<le> n" "n < 10000"
  shows "str_nat n = [48 + n div 1000, 48 + n div 100 mod 10, 48 + n div 10 mod 10, 48 + n mod 10]"
proof -
  have n1: "\<not> n < 10" using assms by simp
  have n2: "\<not> n div 10 < 10" using assms by simp
  have n3: "10 \<le> n div 100" "n div 100 < 100" using assms by simp_all
  have d1: "n div 10 div 10 = n div 100" by (simp add: div_mult2_eq [symmetric])
  have d2: "n div 100 div 10 = n div 1000" by (simp add: div_mult2_eq [symmetric])
  have a: "str_nat n = str_nat (n div 10) @ [48 + n mod 10]"
    using n1 by (simp add: str_nat.simps [of n])
  have b: "str_nat (n div 10) = str_nat (n div 100) @ [48 + n div 10 mod 10]"
    using n2 d1 by (simp add: str_nat.simps [of "n div 10"])
  have c: "str_nat (n div 100) = [48 + n div 1000, 48 + n div 100 mod 10]"
    using n3 d2 by (simp add: str_nat_2)
  show ?thesis by (simp add: a b c)
qed

lemma zero_pad2_str_nat: "n < 100 \<Longrightarrow> zero_pad 2 (str_nat n) = [48 + n div 10, 48 + n mod 10]"
  by (cases "n < 10") (simp_all add: zero_pad_def str_nat_1 str_nat_2)

lemma zero_pad4_str_nat: "1000 \<le> n \<Longrightarrow> n < 10000 \<Longrightarrow> zero_pad 4 (str_nat n) = str_nat n"
  by (simp add: zero_pad_def str_nat_4)


subsection \<open>What each directive matches\<close>

lemma digit_vals:
  "digit_val 48 = 0" "digit_val 49 = 1" "digit_val 50 = 2" "digit_val 51 = 3"
  "digit_val 52 = 4" "digit_val 53 = 5" "digit_val 54 = 6" "digit_val 55 = 7"
  "digit_val 56 = 8" "digit_val 57 = 9" "digit_val 32 = 0"
  by (simp_all add: digit_val_def decimal_def unicode_zeros_def)

lemma is_digits:
  "is_digit 48" "is_digit 49" "is_digit 50" "is_digit 51" "is_digit 52"
  "is_digit 53" "is_digit 54" "is_digit 55" "is_digit 56" "is_digit 57"
  by (simp_all add: is_digit_def decimal_def unicode_zeros_def)

lemma not_digit_range: "\<not> is_digit c \<Longrightarrow> c < 48 \<or> 57 < c"
  using in_range_digit [of c] unfolding in_range_def by linarith

lemmas regex_simps = match_directive_def one_def two_def in_range_def
  digit_vals is_digits digit_val_ascii is_digit_ascii

lemma match_d_one:
  assumes "1 \<le> k" "k \<le> 9" "\<not> is_digit c"
  shows "match_directive Dir_d ((48 + k) # c # r) = [(k, c # r)]"
  using assms not_digit_range [OF assms(3)] by (auto simp: regex_simps)

lemma match_d_two:
  assumes "b \<le> 9" "1 \<le> 10 * a + b" "10 * a + b \<le> 31"
  shows "\<exists>t. match_directive Dir_d ((48 + a) # (48 + b) # r) = (10 * a + b, r) # t"
proof -
  consider "a = 0" | "a = 1" | "a = 2" | "a = 3" using assms by linarith
  then show ?thesis
    using assms by cases (auto simp: regex_simps)
qed

lemma match_m_one:
  assumes "1 \<le> k" "k \<le> 9" "\<not> is_digit c"
  shows "match_directive Dir_m ((48 + k) # c # r) = [(k, c # r)]"
  using assms not_digit_range [OF assms(3)] by (auto simp: regex_simps)

lemma match_m_two:
  assumes "b \<le> 9" "1 \<le> 10 * a + b" "10 * a + b \<le> 12"
  shows "\<exists>t. match_directive Dir_m ((48 + a) # (48 + b) # r) = (10 * a + b, r) # t"
proof -
  consider "a = 0" | "a = 1" using assms by linarith
  then show ?thesis
    using assms by cases (auto simp: regex_simps)
qed

lemma match_H_one:
  assumes "k \<le> 9" "\<not> is_digit c"
  shows "\<exists>t. match_directive Dir_H ((48 + k) # c # r) = (k, c # r) # t"
  using assms not_digit_range [OF assms(2)] by (auto simp: regex_simps)

lemma match_H_two:
  assumes "b \<le> 9" "10 * a + b \<le> 23"
  shows "\<exists>t. match_directive Dir_H ((48 + a) # (48 + b) # r) = (10 * a + b, r) # t"
proof -
  consider "a = 0" | "a = 1" | "a = 2" using assms by linarith
  then show ?thesis
    using assms by cases (auto simp: regex_simps)
qed

lemma match_M_two:
  assumes "b \<le> 9" "a \<le> 5"
  shows "\<exists>t. match_directive Dir_M ((48 + a) # (48 + b) # r) = (10 * a + b, r) # t"
  using assms by (auto simp: regex_simps)

lemma match_Y:
  assumes "length s = 4" "list_all (in_range 48 57) s"
  shows "match_directive Dir_Y (s @ r) = [(digits_value s, r)]"
proof -
  from assms(1) obtain a b c d where s: "s = [a, b, c, d]"
    by (auto simp: length_Suc_conv numeral_eq_Suc)
  with assms(2) have "is_digit a" "is_digit b" "is_digit c" "is_digit d"
    by (simp_all add: in_range_digit)
  then show ?thesis by (simp add: s match_directive_def four_digits_def)
qed

lemma match_literal: "match_directive (Literal c) (c # r) = [(0, r)]"
  by (simp add: match_directive_def)

lemma match_spaces:
  assumes "ws \<noteq> []" "list_all is_space ws" "r = [] \<or> \<not> is_space (hd r)"
  shows "\<exists>t. match_directive Spaces (ws @ r) = (0, r) # t"
proof -
  have tw: "takeWhile is_space (ws @ r) = ws"
    using assms(2,3) by (cases r) (auto simp: list_all_iff takeWhile_append2 takeWhile_eq_all_conv)
  obtain n where n: "length ws = Suc n" using assms(1) by (cases ws) auto
  have "rev [1 ..< Suc (Suc n)] = Suc n # rev [1 ..< Suc n]" by simp
  then show ?thesis
    by (simp add: match_directive_def tw n del: upt_Suc)
qed

lemma first_match_nil: "first_match [] p s = Some (p, s)"
  by (simp add: first_match_def)

lemma first_match_step:
  assumes "match_directive d s = (v, r) # t" "first_match ds (store d v p) r = Some x"
  shows "first_match (d # ds) p s = Some x"
  using assms by (auto simp: first_match_def split: list.splits)

lemma first_match_step_ex:
  assumes "\<exists>t. match_directive d s = (v, r) # t" "first_match ds (store d v p) r = Some x"
  shows "first_match (d # ds) p s = Some x"
  using assms first_match_step by blast

lemma first_match_none:
  "match_directive d s = [] \<Longrightarrow> first_match (d # ds) p s = None"
  by (simp add: first_match_def)


subsection \<open>Substrings, replacement and splitting\<close>

lemma contains_prefix: "contains sub (sub @ r)"
proof (cases "sub @ r")
  case Nil
  then show ?thesis by simp
next
  case (Cons a list)
  have "take (length sub) (sub @ r) = sub" by simp
  then have "take (length sub) (a # list) = sub" unfolding Cons .
  then show ?thesis unfolding Cons by simp
qed

lemma contains_append_right: "contains sub s \<Longrightarrow> contains sub (p @ s)"
  by (induction p) auto

lemma contains_middle: "contains sub (p @ sub @ r)"
  by (simp add: contains_prefix contains_append_right)

lemma not_contains:
  assumes "sub \<noteq> []" "hd sub \<notin> set s"
  shows "\<not> contains sub s"
  using assms
proof (induction s)
  case Nil
  then show ?case by simp
next
  case (Cons c cs)
  have "take (length sub) (c # cs) \<noteq> sub"
  proof
    assume "take (length sub) (c # cs) = sub"
    then have "hd sub = c" using Cons.prems(1) by (cases sub) auto
    with Cons.prems(2) show False by simp
  qed
  with Cons show ?case by simp
qed

lemma py_replace_absent:
  assumes "old \<noteq> []" "hd old \<notin> set s"
  shows "py_replace s old new = s"
  using assms
proof (induction s)
  case Nil
  then show ?case by simp
next
  case (Cons c cs)
  have "take (length old) (c # cs) \<noteq> old"
  proof
    assume "take (length old) (c # cs) = old"
    then have "hd old = c" using Cons.prems(1) by (cases old) auto
    with Cons.prems(2) show False by simp
  qed
  with Cons show ?case by simp
qed

lemma py_replace_prefix:
  assumes "old \<noteq> []"
  shows "py_replace (old @ s) old new = new @ py_replace s old new"
proof -
  obtain c cs where e: "old @ s = c # cs" using assms by (cases old) auto
  have t: "take (length old) (old @ s) = old" and d: "drop (length old) (old @ s) = s"
    by simp_all
  have "py_replace (c # cs) old new = new @ py_replace (drop (length old) (c # cs)) old new"
    using assms t unfolding e by simp
  then show ?thesis using d unfolding e by simp
qed


subsection \<open>Matching a whole format\<close>

lemma digit_not_space: "in_range 48 57 c \<Longrightarrow> \<not> is_space c"
  using space_not_digit in_range_digit by blast

lemma str_nat_nonempty: "str_nat n \<noteq> []"
  by (subst str_nat.simps) simp

lemma zero_pad_nonempty: "s \<noteq> [] \<Longrightarrow> zero_pad k s \<noteq> []"
  by (simp add: zero_pad_def)

lemma zero_pad_digits:
  "list_all (in_range 48 57) s \<Longrightarrow> list_all (in_range 48 57) (zero_pad k s)"
  by (auto simp: zero_pad_def list_all_iff in_range_def)

lemma digits_head:
  assumes "s \<noteq> []" "list_all (in_range 48 57) s"
  shows "\<not> is_space (hd (s @ r))" "\<not> is_space (hd s)"
  using assms by (cases s; simp add: digit_not_space)+

lemma digits_value_zero: "digits_value (48 # s) = digits_value s"
  by (simp add: digits_value_def digit_vals)

lemma digits_value_zero_pad: "digits_value (zero_pad k s) = digits_value s"
proof -
  have "digits_value (replicate j 48 @ s) = digits_value s" for j
    by (induction j) (simp_all add: digits_value_zero)
  then show ?thesis by (simp add: zero_pad_def)
qed

lemma zero_pad_length: "length s \<le> k \<Longrightarrow> length (zero_pad k s) = k"
  by (simp add: zero_pad_def)

lemma year_match:
  assumes "y \<le> 9999"
  shows "match_directive Dir_Y (zero_pad 4 (str_nat y) @ r) = [(y, r)]"
proof -
  have "length (str_nat y) \<le> 4" using assms str_nat_length [of 4 y] by simp
  then have "length (zero_pad 4 (str_nat y)) = 4" by (rule zero_pad_length)
  moreover have "list_all (in_range 48 57) (zero_pad 4 (str_nat y))"
    by (simp add: zero_pad_digits str_nat_digits)
  ultimately show ?thesis
    by (simp add: match_Y digits_value_zero_pad digits_value_str_nat)
qed

lemma two_digit_forms:
  assumes "n < 100" "s = str_nat n \<or> s = zero_pad 2 (str_nat n)"
  shows "(n < 10 \<and> s = [48 + n]) \<or> s = [48 + n div 10, 48 + n mod 10]"
proof -
  have z: "zero_pad 2 (str_nat n) = [48 + n div 10, 48 + n mod 10]"
    using assms(1) by (rule zero_pad2_str_nat)
  show ?thesis
  proof (cases "n < 10")
    case True
    then have "str_nat n = [48 + n]" by (rule str_nat_1)
    with True z assms(2) show ?thesis by metis
  next
    case False
    then have "str_nat n = [48 + n div 10, 48 + n mod 10]"
      using assms(1) by (simp add: str_nat_2)
    with z assms(2) show ?thesis by metis
  qed
qed

lemma digit_text:
  assumes "s = str_nat n \<or> s = zero_pad k (str_nat n)"
  shows "s \<noteq> []" "list_all (in_range 48 57) s"
proof -
  have "str_nat n \<noteq> []" "zero_pad k (str_nat n) \<noteq> []"
    by (simp_all add: str_nat_nonempty zero_pad_nonempty)
  with assms show "s \<noteq> []" by metis
  have "list_all (in_range 48 57) (str_nat n)"
    "list_all (in_range 48 57) (zero_pad k (str_nat n))"
    by (simp_all add: str_nat_digits zero_pad_digits)
  with assms show "list_all (in_range 48 57) s" by metis
qed

lemma day_match:
  assumes "1 \<le> d" "d \<le> 31" "s = str_nat d \<or> s = zero_pad 2 (str_nat d)" "\<not> is_digit c"
  shows "\<exists>t. match_directive Dir_d (s @ c # r) = (d, c # r) # t"
proof -
  from two_digit_forms [of d s] assms
  consider "d < 10" "s = [48 + d]" | "s = [48 + d div 10, 48 + d mod 10]" by auto
  then show ?thesis
  proof cases
    case 1
    then show ?thesis using assms match_d_one [of d c r] by simp
  next
    case 2
    have "d mod 10 \<le> 9" "1 \<le> 10 * (d div 10) + d mod 10" "10 * (d div 10) + d mod 10 \<le> 31"
      using assms by simp_all
    from match_d_two [OF this, of "c # r"] show ?thesis using 2 by simp
  qed
qed

lemma month_match:
  assumes "1 \<le> m" "m \<le> 12" "s = str_nat m \<or> s = zero_pad 2 (str_nat m)" "\<not> is_digit c"
  shows "\<exists>t. match_directive Dir_m (s @ c # r) = (m, c # r) # t"
proof -
  from two_digit_forms [of m s] assms
  consider "m < 10" "s = [48 + m]" | "s = [48 + m div 10, 48 + m mod 10]" by auto
  then show ?thesis
  proof cases
    case 1
    then show ?thesis using assms match_m_one [of m c r] by simp
  next
    case 2
    have "m mod 10 \<le> 9" "1 \<le> 10 * (m div 10) + m mod 10" "10 * (m div 10) + m mod 10 \<le> 12"
      using assms by simp_all
    from match_m_two [OF this, of "c # r"] show ?thesis using 2 by simp
  qed
qed

lemma hour_match:
  assumes "h \<le> 23" "s = str_nat h \<or> s = zero_pad 2 (str_nat h)"
  shows "\<exists>t. match_directive Dir_H (s @ 58 # r) = (h, 58 # r) # t"
proof -
  from two_digit_forms [of h s] assms
  consider "h < 10" "s = [48 + h]" | "s = [48 + h div 10, 48 + h mod 10]" by auto
  then show ?thesis
  proof cases
    case 1
    then show ?thesis using match_H_one [of h 58 r] colon_not_digit by simp
  next
    case 2
    have "h mod 10 \<le> 9" "10 * (h div 10) + h mod 10 \<le> 23"
      using assms by simp_all
    from match_H_two [OF this, of "58 # r"] show ?thesis using 2 by simp
  qed
qed

lemma minute_match:
  assumes "mi \<le> 59"
  shows "\<exists>t. match_directive Dir_M (zero_pad 2 (str_nat mi) @ r) = (mi, r) # t"
proof -
  have "mi mod 10 \<le> 9" "mi div 10 \<le> 5" using assms by simp_all
  from match_M_two [OF this, of r] show ?thesis
    using assms by (simp add: zero_pad2_str_nat)
qed

lemma store_simps:
  "store Dir_d v p = p\<lparr>p_day := v\<rparr>"
  "store Dir_m v p = p\<lparr>p_month := v\<rparr>"
  "store Dir_Y v p = p\<lparr>p_year := Some v\<rparr>"
  "store Dir_H v p = p\<lparr>p_hour := v\<rparr>"
  "store Dir_M v p = p\<lparr>p_minute := v\<rparr>"
  "store Spaces v p = p"
  "store (Literal c) v p = p"
  by (simp_all add: store_def)

text \<open>The common start of the three formats: a day, blanks, a month, blanks.\<close>

lemma chain_day_month:
  assumes d: "1 \<le> d" "d \<le> 31" "ds = str_nat d \<or> ds = zero_pad 2 (str_nat d)"
    and m: "1 \<le> m" "m \<le> 12" "ms = str_nat m \<or> ms = zero_pad 2 (str_nat m)"
    and w: "w1 \<noteq> []" "list_all is_space w1" "w2 \<noteq> []" "list_all is_space w2"
    and r: "r \<noteq> []" "\<not> is_space (hd r)"
    and rest: "first_match fs (p\<lparr>p_day := d, p_month := m\<rparr>) r = Some x"
  shows "first_match (Dir_d # Spaces # Dir_m # Spaces # fs) p (ds @ w1 @ ms @ w2 @ r) = Some x"
proof -
  obtain c1 v1 where w1: "w1 = c1 # v1" "is_space c1" using w(1,2) by (cases w1) auto
  obtain c2 v2 where w2: "w2 = c2 # v2" "is_space c2" using w(3,4) by (cases w2) auto
  have dig_m: "ms \<noteq> []" "list_all (in_range 48 57) ms"
    using digit_text [OF m(3)] .
  have s4: "\<exists>t. match_directive Spaces (w2 @ r) = (0, r) # t"
    using w r by (intro match_spaces) auto
  have s3: "\<exists>t. match_directive Dir_m (ms @ w2 @ r) = (m, w2 @ r) # t"
    unfolding w2(1) using month_match [OF m, of c2 "v2 @ r"] space_not_digit [OF w2(2)] by simp
  have s2: "\<exists>t. match_directive Spaces (w1 @ ms @ w2 @ r) = (0, ms @ w2 @ r) # t"
    using w digits_head(1) [OF dig_m] by (intro match_spaces) auto
  have s1: "\<exists>t. match_directive Dir_d (ds @ w1 @ ms @ w2 @ r) = (d, w1 @ ms @ w2 @ r) # t"
    unfolding w1(1) using day_match [OF d, of c1 "v1 @ ms @ w2 @ r"] space_not_digit [OF w1(2)]
    by simp
  show ?thesis
    by (rule first_match_step_ex [OF s1], simp only: store_simps,
        rule first_match_step_ex [OF s2], simp only: store_simps,
        rule first_match_step_ex [OF s3], simp only: store_simps,
        rule first_match_step_ex [OF s4], simp only: store_simps)
       (use rest in simp)
qed

lemma chain_clock:
  assumes "h \<le> 23" "hs = str_nat h \<or> hs = zero_pad 2 (str_nat h)" "mi \<le> 59"
  shows "first_match [Dir_H, Literal 58, Dir_M] p (hs @ 58 # zero_pad 2 (str_nat mi))
     = Some (p\<lparr>p_hour := h, p_minute := mi\<rparr>, [])"
proof -
  have s1: "\<exists>t. match_directive Dir_H (hs @ 58 # zero_pad 2 (str_nat mi))
      = (h, 58 # zero_pad 2 (str_nat mi)) # t"
    using assms by (intro hour_match)
  have s2: "\<exists>t. match_directive (Literal 58) (58 # zero_pad 2 (str_nat mi))
      = (0, zero_pad 2 (str_nat mi)) # t"
    by (simp add: match_literal)
  have s3: "\<exists>t. match_directive Dir_M (zero_pad 2 (str_nat mi)) = (mi, []) # t"
    using minute_match [OF assms(3), of "[]"] by simp
  show ?thesis
    by (rule first_match_step_ex [OF s1], simp only: store_simps,
        rule first_match_step_ex [OF s2], simp only: store_simps,
        rule first_match_step_ex [OF s3], simp only: store_simps)
       (simp add: first_match_nil)
qed

lemma clock_head:
  assumes "hs = str_nat h \<or> hs = zero_pad 2 (str_nat h)"
  shows "hs @ r \<noteq> []" "\<not> is_space (hd (hs @ r))"
proof -
  have "hs \<noteq> []" "list_all (in_range 48 57) hs"
    using digit_text [OF assms] .
  then show "hs @ r \<noteq> []" "\<not> is_space (hd (hs @ r))"
    using digits_head(1) by auto
qed

lemma compile_formats:
  "compile_format (ascii ''%d %m %Y %H:%M'')
     = Inr [Dir_d, Spaces, Dir_m, Spaces, Dir_Y, Spaces, Dir_H, Literal 58, Dir_M]"
  "compile_format (ascii ''%d %m %H:%M'')
     = Inr [Dir_d, Spaces, Dir_m, Spaces, Dir_H, Literal 58, Dir_M]"
  "compile_format (ascii ''%d %m %Y'') = Inr [Dir_d, Spaces, Dir_m, Spaces, Dir_Y]"
  by (simp_all add: ascii_def directive_of_def is_space_def whitespace_def)


lemma datetime_new_ok:
  assumes "1 \<le> y" "y \<le> 9999" "1 \<le> m" "m \<le> 12" "1 \<le> d" "d \<le> days_in_month y m"
    "hh \<le> 23" "mm \<le> 59"
  shows "datetime_new y m d hh mm 0
    = Inr \<lparr>dt_year = y, dt_month = m, dt_day = d, dt_hour = hh, dt_minute = mm, dt_second = 0\<rparr>"
  using assms by (simp add: datetime_new_def)

lemma days_in_month_le_31: "days_in_month y m \<le> 31"
  by (simp add: days_in_month_def)

lemma days_in_month_1900: "days_in_month 1900 m \<le> days_in_month y m"
  by (simp add: days_in_month_def is_leap_def)

lemma strptime_full:
  assumes d: "1 \<le> d" "d \<le> 31" "ds = str_nat d \<or> ds = zero_pad 2 (str_nat d)"
    and m: "1 \<le> m" "m \<le> 12" "ms = str_nat m \<or> ms = zero_pad 2 (str_nat m)"
    and w: "w1 \<noteq> []" "list_all is_space w1" "w2 \<noteq> []" "list_all is_space w2"
      "w3 \<noteq> []" "list_all is_space w3"
    and y: "y \<le> 9999"
    and c: "h \<le> 23" "hs = str_nat h \<or> hs = zero_pad 2 (str_nat h)" "mi \<le> 59"
  shows "strptime (ds @ w1 @ ms @ w2 @ zero_pad 4 (str_nat y) @ w3 @ hs @ 58 # zero_pad 2 (str_nat mi))
           (ascii ''%d %m %Y %H:%M'') = datetime_new y m d h mi 0"
proof -
  let ?ck = "hs @ 58 # zero_pad 2 (str_nat mi)"
  let ?ys = "zero_pad 4 (str_nat y)"
  have ydig: "?ys \<noteq> []" "list_all (in_range 48 57) ?ys"
    using digit_text [of ?ys y 4] by simp_all
  have s1: "\<exists>t. match_directive Dir_Y (?ys @ w3 @ ?ck) = (y, w3 @ ?ck) # t"
    using year_match [OF y] by simp
  have s2: "\<exists>t. match_directive Spaces (w3 @ ?ck) = (0, ?ck) # t"
    using w clock_head [OF c(2)] by (intro match_spaces) auto
  have tail: "first_match [Dir_Y, Spaces, Dir_H, Literal 58, Dir_M]
      (no_groups\<lparr>p_day := d, p_month := m\<rparr>) (?ys @ w3 @ ?ck)
      = Some (no_groups\<lparr>p_day := d, p_month := m, p_year := Some y, p_hour := h, p_minute := mi\<rparr>, [])"
    by (rule first_match_step_ex [OF s1], simp only: store_simps,
        rule first_match_step_ex [OF s2], simp only: store_simps)
       (use chain_clock [OF c] in simp)
  have "first_match [Dir_d, Spaces, Dir_m, Spaces, Dir_Y, Spaces, Dir_H, Literal 58, Dir_M]
      no_groups (ds @ w1 @ ms @ w2 @ ?ys @ w3 @ ?ck)
      = Some (no_groups\<lparr>p_day := d, p_month := m, p_year := Some y, p_hour := h, p_minute := mi\<rparr>, [])"
    using d m w digits_head(1) [OF ydig] ydig(1) tail
    by (intro chain_day_month) auto
  then show ?thesis
    by (simp add: strptime_def compile_formats no_groups_def)
qed

lemma strptime_time:
  assumes d: "1 \<le> d" "d \<le> 31" "ds = str_nat d \<or> ds = zero_pad 2 (str_nat d)"
    and m: "1 \<le> m" "m \<le> 12" "ms = str_nat m \<or> ms = zero_pad 2 (str_nat m)"
    and w: "w1 \<noteq> []" "list_all is_space w1" "w2 \<noteq> []" "list_all is_space w2"
    and c: "h \<le> 23" "hs = str_nat h \<or> hs = zero_pad 2 (str_nat h)" "mi \<le> 59"
  shows "strptime (ds @ w1 @ ms @ w2 @ hs @ 58 # zero_pad 2 (str_nat mi))
           (ascii ''%d %m %H:%M'') = datetime_new 1900 m d h mi 0"
proof -
  let ?ck = "hs @ 58 # zero_pad 2 (str_nat mi)"
  have "first_match [Dir_d, Spaces, Dir_m, Spaces, Dir_H, Literal 58, Dir_M]
      no_groups (ds @ w1 @ ms @ w2 @ ?ck)
      = Some (no_groups\<lparr>p_day := d, p_month := m, p_hour := h, p_minute := mi\<rparr>, [])"
    using d m w clock_head [OF c(2)] chain_clock [OF c]
    by (intro chain_day_month) auto
  then show ?thesis
    by (simp add: strptime_def compile_formats no_groups_def)
qed

lemma strptime_date:
  assumes d: "1 \<le> d" "d \<le> 31" "ds = str_nat d \<or> ds = zero_pad 2 (str_nat d)"
    and m: "1 \<le> m" "m \<le> 12" "ms = str_nat m \<or> ms = zero_pad 2 (str_nat m)"
    and w: "w1 \<noteq> []" "list_all is_space w1" "w2 \<noteq> []" "list_all is_space w2"
    and y: "y \<le> 9999"
  shows "strptime (ds @ w1 @ ms @ w2 @ zero_pad 4 (str_nat y)) (ascii ''%d %m %Y'')
           = datetime_new y m d 0 0 0"
proof -
  let ?ys = "zero_pad 4 (str_nat y)"
  have ydig: "?ys \<noteq> []" "list_all (in_range 48 57) ?ys"
    using digit_text [of ?ys y 4] by simp_all
  have s1: "\<exists>t. match_directive Dir_Y ?ys = (y, []) # t"
    using year_match [OF y, of "[]"] by simp
  have tail: "first_match [Dir_Y] (no_groups\<lparr>p_day := d, p_month := m\<rparr>) ?ys
      = Some (no_groups\<lparr>p_day := d, p_month := m, p_year := Some y\<rparr>, [])"
    by (rule first_match_step_ex [OF s1], simp only: store_simps) (simp add: first_match_nil)
  have "first_match [Dir_d, Spaces, Dir_m, Spaces, Dir_Y] no_groups (ds @ w1 @ ms @ w2 @ ?ys)
      = Some (no_groups\<lparr>p_day := d, p_month := m, p_year := Some y\<rparr>, [])"
    using d m w digits_head(2) [OF ydig] ydig(1) tail
    by (intro chain_day_month) auto
  then show ?thesis
    by (simp add: strptime_def compile_formats no_groups_def)
qed


section \<open>Properties of the date normalizer\<close>

lemma py_str_nat: "py_str (int n) = str_nat n"
  by (simp add: py_str_def)

lemma markers:
  "Vchera \<noteq> []" "hd Vchera = 1042" "Segodnya \<noteq> []" "hd Segodnya = 1057"
  "1042 \<notin> set Segodnya"
  by (simp_all add: Vchera_def Segodnya_def)

lemma not_space_marker: "\<not> is_space 1042" "\<not> is_space 1057"
  by (simp_all add: is_space_def whitespace_def)

lemma clock_chars:
  assumes "list_all is_space ws" "hs = str_nat h \<or> hs = zero_pad 2 (str_nat h)"
  shows "1042 \<notin> set (ws @ hs @ 58 # zero_pad 2 (str_nat mi))"
    "1057 \<notin> set (ws @ hs @ 58 # zero_pad 2 (str_nat mi))"
proof -
  have a: "\<forall>c\<in>set ws. is_space c" using assms(1) by (simp add: list_all_iff)
  have b: "\<forall>c\<in>set hs. in_range 48 57 c"
    using digit_text(2) [OF assms(2)] by (simp add: list_all_iff)
  have c: "\<forall>c\<in>set (zero_pad 2 (str_nat mi)). in_range 48 57 c"
    using digit_text(2) [of "zero_pad 2 (str_nat mi)" mi 2] by (simp add: list_all_iff)
  show "1042 \<notin> set (ws @ hs @ 58 # zero_pad 2 (str_nat mi))"
    using a b c not_space_marker by (auto simp: in_range_def)
  show "1057 \<notin> set (ws @ hs @ 58 # zero_pad 2 (str_nat mi))"
    using a b c not_space_marker by (auto simp: in_range_def)
qed

lemma convert_relative:
  assumes marker: "(marker = Vchera \<and> d + 1 = dt_day now) \<or> (marker = Segodnya \<and> d = dt_day now)"
    and ws: "list_all is_space ws"
    and hs: "hs = str_nat h \<or> hs = zero_pad 2 (str_nat h)"
  shows "convert_relative_date_to_absolute now (marker @ ws @ hs @ 58 # zero_pad 2 (str_nat mi))
    = str_nat d @ [32] @ zero_pad 2 (str_nat (dt_month now)) @ [32] @ str_nat (dt_year now)
        @ ws @ hs @ 58 # zero_pad 2 (str_nat mi)"
proof -
  let ?rest = "ws @ hs @ 58 # zero_pad 2 (str_nat mi)"
  note cc = clock_chars [OF ws hs, of mi]
  from marker show ?thesis
  proof
    assume v: "marker = Vchera \<and> d + 1 = dt_day now"
    have 1: "contains Vchera (Vchera @ ?rest)" by (rule contains_prefix)
    have 2: "py_replace (Vchera @ ?rest) Vchera [] = ?rest"
      using py_replace_prefix [OF markers(1), of ?rest "[]"]
        py_replace_absent [of Vchera ?rest "[]"] cc markers by simp
    have 3: "int (dt_day now) - 1 = int d" using v by linarith
    show ?thesis
      using v 1 2 3
      by (simp add: convert_relative_date_to_absolute_def replace_relative_day_with_absolute_def
            get_current_day_def get_current_month_def get_current_year_def py_str_nat ascii_def)
  next
    assume t: "marker = Segodnya \<and> d = dt_day now"
    have 1: "\<not> contains Vchera (Segodnya @ ?rest)"
      using cc markers by (intro not_contains) auto
    have 2: "py_replace (Segodnya @ ?rest) Segodnya [] = ?rest"
      using py_replace_prefix [OF markers(3), of ?rest "[]"]
        py_replace_absent [of Segodnya ?rest "[]"] cc markers by simp
    show ?thesis
      using t 1 2
      by (simp add: convert_relative_date_to_absolute_def replace_relative_day_with_absolute_def
            get_current_day_def get_current_month_def get_current_year_def py_str_nat ascii_def)
  qed
qed

lemma py_split_spaces: "list_all is_space w \<Longrightarrow> py_split (w @ r) = py_split r"
  by (induction w) auto

lemma py_split_word:
  assumes "t \<noteq> []" "\<forall>c\<in>set t. \<not> is_space c" "r = [] \<or> is_space (hd r)"
  shows "py_split (t @ r) = t # py_split r"
proof -
  obtain c cs where t: "t = c # cs" using assms(1) by (cases t) auto
  have tw: "takeWhile (\<lambda>x. \<not> is_space x) (c # cs @ r) = c # cs"
    using assms(2,3) unfolding t by (cases r) (auto simp: takeWhile_append2 takeWhile_eq_all_conv)
  have dw: "dropWhile (\<lambda>x. \<not> is_space x) (cs @ r) = r"
    using assms(2,3) unfolding t by (cases r) (auto simp: dropWhile_append2 dropWhile_eq_Nil_conv)
  have "py_split (c # cs @ r) = takeWhile (\<lambda>x. \<not> is_space x) (c # cs @ r)
      # py_split (dropWhile (\<lambda>x. \<not> is_space x) (cs @ r))"
    using assms(2) unfolding t by simp
  then show ?thesis unfolding tw dw t by simp
qed

lemma py_split_three:
  assumes a: "a \<noteq> []" "\<forall>c\<in>set a. \<not> is_space c"
    and b: "b \<noteq> []" "\<forall>c\<in>set b. \<not> is_space c"
    and c: "c \<noteq> []" "\<forall>x\<in>set c. \<not> is_space x"
    and w: "w1 \<noteq> []" "list_all is_space w1" "w2 \<noteq> []" "list_all is_space w2"
  shows "py_split (a @ w1 @ b @ w2 @ c) = [a, b, c]"
proof -
  have h1: "is_space (hd (w1 @ b @ w2 @ c))" using w(1,2) by (cases w1) auto
  have h2: "is_space (hd (w2 @ c))" using w(3,4) by (cases w2) auto
  have "py_split (a @ w1 @ b @ w2 @ c) = a # py_split (w1 @ b @ w2 @ c)"
    using a h1 by (intro py_split_word) auto
  also have "py_split (w1 @ b @ w2 @ c) = py_split (b @ w2 @ c)"
    using w(2) by (rule py_split_spaces)
  also have "py_split (b @ w2 @ c) = b # py_split (w2 @ c)"
    using b h2 by (intro py_split_word) auto
  also have "py_split (w2 @ c) = py_split c"
    using w(4) by (rule py_split_spaces)
  also have "py_split c = [c]"
    using py_split_word [of c "[]"] c by simp
  finally show ?thesis .
qed

lemma months_entries:
  assumes "map_of months name = Some (str_nat m)"
  shows "1 \<le> m \<and> m \<le> 12 \<and> name \<noteq> []
    \<and> (\<forall>c\<in>set name. \<not> is_space c \<and> c \<noteq> 1042 \<and> c \<noteq> 1057 \<and> c \<noteq> 58)"
proof -
  have vals: "ascii ''1'' = str_nat 1" "ascii ''2'' = str_nat 2" "ascii ''3'' = str_nat 3"
    "ascii ''4'' = str_nat 4" "ascii ''5'' = str_nat 5" "ascii ''6'' = str_nat 6"
    "ascii ''7'' = str_nat 7" "ascii ''8'' = str_nat 8" "ascii ''9'' = str_nat 9"
    "ascii ''10'' = str_nat 10" "ascii ''11'' = str_nat 11" "ascii ''12'' = str_nat 12"
    by (simp_all add: ascii_def str_nat_1 str_nat_2)
  have "(name, str_nat m) \<in> set months" using assms by (rule map_of_SomeD)
  then show ?thesis
    unfolding months_def vals
    by (auto dest!: str_nat_inj simp: is_space_def whitespace_def)
qed


lemma digit_chars:
  assumes "list_all (in_range 48 57) s" "c \<in> set s"
  shows "\<not> is_space c" "c \<noteq> 1042" "c \<noteq> 1057" "c \<noteq> 58"
proof -
  have r: "in_range 48 57 c" using assms by (simp add: list_all_iff)
  then show "\<not> is_space c" by (rule digit_not_space)
  from r show "c \<noteq> 1042" "c \<noteq> 1057" "c \<noteq> 58" by (auto simp: in_range_def)
qed

lemma space_chars:
  assumes "list_all is_space w" "c \<in> set w"
  shows "c \<noteq> 1042" "c \<noteq> 1057" "c \<noteq> 58"
proof -
  have "is_space c" using assms by (simp add: list_all_iff)
  then show "c \<noteq> 1042" "c \<noteq> 1057" "c \<noteq> 58"
    by (auto simp: is_space_def whitespace_def)
qed

lemma not_space_colon: "\<not> is_space 58"
  by (simp add: is_space_def whitespace_def)

lemma replace_month:
  assumes name: "map_of months name = Some (str_nat m)"
    and d: "ds = str_nat d \<or> ds = zero_pad 2 (str_nat d)"
    and w: "w1 \<noteq> []" "list_all is_space w1" "w2 \<noteq> []" "list_all is_space w2"
    and t: "t \<noteq> []" "\<forall>c\<in>set t. \<not> is_space c"
  shows "replace_month_name_with_number (ds @ w1 @ name @ w2 @ t)
    = Inr (ds @ [32] @ str_nat m @ [32] @ t)"
proof -
  note dd = digit_text [OF d]
  note me = months_entries [OF name]
  have "py_split (ds @ w1 @ name @ w2 @ t) = [ds, name, t]"
    using dd digit_chars(1) [OF dd(2)] me w t by (intro py_split_three) auto
  then show ?thesis
    using name by (simp add: replace_month_name_with_number_def ascii_def)
qed

lemma no_marker:
  assumes name: "map_of months name = Some (str_nat m)"
    and d: "ds = str_nat d \<or> ds = zero_pad 2 (str_nat d)"
    and w: "list_all is_space w1" "list_all is_space w2"
    and t: "1042 \<notin> set t" "1057 \<notin> set t"
  shows "\<not> contains Vchera (ds @ w1 @ name @ w2 @ t)"
    "\<not> contains Segodnya (ds @ w1 @ name @ w2 @ t)"
proof -
  note dd = digit_text [OF d]
  note me = months_entries [OF name]
  have "1042 \<notin> set (ds @ w1 @ name @ w2 @ t)"
    using digit_chars(2) [OF dd(2)] space_chars(1) [OF w(1)] space_chars(1) [OF w(2)] me t
    by auto
  then show "\<not> contains Vchera (ds @ w1 @ name @ w2 @ t)"
    using markers by (intro not_contains) auto
  have "1057 \<notin> set (ds @ w1 @ name @ w2 @ t)"
    using digit_chars(3) [OF dd(2)] space_chars(2) [OF w(1)] space_chars(2) [OF w(2)] me t
    by auto
  then show "\<not> contains Segodnya (ds @ w1 @ name @ w2 @ t)"
    using markers by (intro not_contains) auto
qed

lemma normalize_date_with_time:
  assumes name: "map_of months name = Some (str_nat m)"
    and d: "1 \<le> d" "d \<le> days_in_month 1900 m" "ds = str_nat d \<or> ds = zero_pad 2 (str_nat d)"
    and w: "w1 \<noteq> []" "list_all is_space w1" "w2 \<noteq> []" "list_all is_space w2"
    and c: "h \<le> 23" "hs = str_nat h \<or> hs = zero_pad 2 (str_nat h)" "mi \<le> 59"
    and now: "1 \<le> dt_year now" "dt_year now \<le> 9999"
  shows "normalize_date now (ds @ w1 @ name @ w2 @ hs @ ascii '':'' @ zero_pad 2 (str_nat mi))
    = Inr (zero_pad 4 (str_nat (dt_year now)) @ ascii ''-''
           @ zero_pad 2 (str_nat m) @ ascii ''-''
           @ zero_pad 2 (str_nat d) @ ascii '' ''
           @ zero_pad 2 (str_nat h) @ ascii '':'' @ zero_pad 2 (str_nat mi))"
proof -
  let ?ck = "hs @ 58 # zero_pad 2 (str_nat mi)"
  let ?date = "ds @ w1 @ name @ w2 @ ?ck"
  have col: "ascii '':'' = [58]" by (simp add: ascii_def)
  note me = months_entries [OF name]
  note hd = digit_text [OF c(2)]
  have md: "list_all (in_range 48 57) (zero_pad 2 (str_nat mi))"
    by (simp add: zero_pad_digits str_nat_digits)
  have ck1: "?ck \<noteq> []" by simp
  have ck2: "\<forall>x\<in>set ?ck. \<not> is_space x"
    using digit_chars(1) [OF hd(2)] digit_chars(1) [OF md] not_space_colon by auto
  have ck3: "1042 \<notin> set ?ck"
    using digit_chars(2) [OF hd(2)] digit_chars(2) [OF md] by auto
  have ck4: "1057 \<notin> set ?ck"
    using digit_chars(3) [OF hd(2)] digit_chars(3) [OF md] by auto
  note ck = ck1 ck2 ck3 ck4
  note nm = no_marker [OF name d(3) w(2) w(4) ck(3,4)]
  have rm: "replace_month_name_with_number ?date = Inr (ds @ [32] @ str_nat m @ [32] @ ?ck)"
    using name d(3) w ck(1,2) by (rule replace_month)
  have cc: "contains [58] (ds @ [32] @ str_nat m @ [32] @ ?ck)"
    using contains_middle [of "[58]" "ds @ [32] @ str_nat m @ [32] @ hs" "zero_pad 2 (str_nat mi)"]
    by simp
  have d31: "d \<le> 31" using d(2) days_in_month_le_31 [of 1900 m] by linarith
  have dy: "d \<le> days_in_month (dt_year now) m"
    using d(2) days_in_month_1900 [of m "dt_year now"] by linarith
  have "strptime (ds @ [32] @ str_nat m @ [32] @ ?ck) (ascii ''%d %m %H:%M'')
      = datetime_new 1900 m d h mi 0"
    using d(1) d31 d(3) me c by (intro strptime_time) (auto simp: is_space_def whitespace_def)
  also have "\<dots> = Inr \<lparr>dt_year = 1900, dt_month = m, dt_day = d, dt_hour = h,
      dt_minute = mi, dt_second = 0\<rparr>"
    using me d c by (intro datetime_new_ok) auto
  finally have sp: "strptime (ds @ [32] @ str_nat m @ [32] @ ?ck) (ascii ''%d %m %H:%M'')
      = Inr \<lparr>dt_year = 1900, dt_month = m, dt_day = d, dt_hour = h,
      dt_minute = mi, dt_second = 0\<rparr>" .
  have ry: "replace_year \<lparr>dt_year = 1900, dt_month = m, dt_day = d, dt_hour = h,
      dt_minute = mi, dt_second = 0\<rparr> (get_current_year now)
      = Inr \<lparr>dt_year = dt_year now, dt_month = m, dt_day = d, dt_hour = h,
      dt_minute = mi, dt_second = 0\<rparr>"
    using datetime_new_ok [OF now _ _ d(1) dy c(1,3)] me
    by (simp add: replace_year_def get_current_year_def)
  show ?thesis
    unfolding col using nm rm cc sp ry
    by (simp add: normalize_date_def drop_last3_str_datetime str_date_def ascii_def)
qed

lemma normalize_date_with_year:
  assumes name: "map_of months name = Some (str_nat m)"
    and d: "1 \<le> d" "d \<le> days_in_month y m" "ds = str_nat d \<or> ds = zero_pad 2 (str_nat d)"
    and w: "w1 \<noteq> []" "list_all is_space w1" "w2 \<noteq> []" "list_all is_space w2"
    and y: "1 \<le> y" "y \<le> 9999"
  shows "normalize_date now (ds @ w1 @ name @ w2 @ zero_pad 4 (str_nat y))
    = Inr (zero_pad 4 (str_nat y) @ ascii ''-''
           @ zero_pad 2 (str_nat m) @ ascii ''-'' @ zero_pad 2 (str_nat d))"
proof -
  let ?ys = "zero_pad 4 (str_nat y)"
  let ?date = "ds @ w1 @ name @ w2 @ ?ys"
  note me = months_entries [OF name]
  have yd: "?ys \<noteq> []" "list_all (in_range 48 57) ?ys"
    by (simp_all add: zero_pad_nonempty str_nat_nonempty zero_pad_digits str_nat_digits)
  note dd = digit_text [OF d(3)]
  have sd: "list_all (in_range 48 57) (str_nat m)" by (rule str_nat_digits)
  have ys: "?ys \<noteq> []" "\<forall>x\<in>set ?ys. \<not> is_space x" "1042 \<notin> set ?ys" "1057 \<notin> set ?ys"
    using digit_chars(1) [OF yd(2)] digit_chars(2) [OF yd(2)] digit_chars(3) [OF yd(2)] yd(1)
    by auto
  note nm = no_marker [OF name d(3) w(2) w(4) ys(3,4)]
  have rm: "replace_month_name_with_number ?date = Inr (ds @ [32] @ str_nat m @ [32] @ ?ys)"
    using name d(3) w ys(1,2) by (rule replace_month)
  have "58 \<notin> set (ds @ [32] @ str_nat m @ [32] @ ?ys)"
    using digit_chars(4) [OF yd(2)] digit_chars(4) [OF dd(2)] digit_chars(4) [OF sd]
    by auto
  then have nc: "\<not> contains [58] (ds @ [32] @ str_nat m @ [32] @ ?ys)"
    by (intro not_contains) auto
  have d31: "d \<le> 31" using d(2) days_in_month_le_31 [of y m] by linarith
  have "strptime (ds @ [32] @ str_nat m @ [32] @ ?ys) (ascii ''%d %m %Y'')
      = datetime_new y m d 0 0 0"
    using d(1) d31 d(3) me y by (intro strptime_date) (auto simp: is_space_def whitespace_def)
  also have "\<dots> = Inr \<lparr>dt_year = y, dt_month = m, dt_day = d, dt_hour = 0,
      dt_minute = 0, dt_second = 0\<rparr>"
    using me d y by (intro datetime_new_ok) auto
  finally have sp: "strptime (ds @ [32] @ str_nat m @ [32] @ ?ys) (ascii ''%d %m %Y'')
      = Inr \<lparr>dt_year = y, dt_month = m, dt_day = d, dt_hour = 0,
      dt_minute = 0, dt_second = 0\<rparr>" .
  have col: "ascii '':'' = [58]" by (simp add: ascii_def)
  show ?thesis
    using nm rm nc sp
    by (simp add: normalize_date_def str_date_def col)
qed

section \<open>The date normalizer on the three input forms\<close>

text \<open>The definitions that evaluate the normalizer on a given text.\<close>

lemmas normalizer_defs = normalize_date_def strptime_def first_match_def ascii_def
  convert_relative_date_to_absolute_def replace_relative_day_with_absolute_def
  get_current_day_def get_current_month_def get_current_year_def
  Vchera_def Segodnya_def months_def replace_month_name_with_number_def py_str_def
  zero_pad_def str_nat.simps match_directive_def one_def two_def four_digits_def
  store_def no_groups_def datetime_new_def days_in_month_def is_leap_def
  replace_year_def str_date_def str_datetime_def drop_last3_def
  is_digit_def digit_val_def decimal_def unicode_zeros_def is_space_def whitespace_def
  in_range_def directive_of_def digits_value_def

text \<open>
  Claim C1, as it holds on the code. Let the clock give a date \<open>now\<close> whose year has
  four digits, and let the text be a relative marker, a non-empty run of whitespace
  and a clock time \<open>H:MM\<close> or \<open>HH:MM\<close> with an hour up to 23 and a minute up to 59.
  The marker resolves to the day number \<open>d\<close>: the day of \<open>now\<close> for \<open>Segodnya\<close> (today)
  and that day minus one for \<open>Vchera\<close> (yesterday). Provided \<open>d\<close> is at least 1,
  \<open>normalize_date\<close> returns \<open>YYYY-MM-DD HH:MM\<close> with the year and the month of \<open>now\<close>,
  the day \<open>d\<close> and the time of the text, without seconds.
\<close>

theorem normalize_date_relative:
  assumes now: "1000 \<le> dt_year now" "dt_year now \<le> 9999" "1 \<le> dt_month now"
      "dt_month now \<le> 12" "dt_day now \<le> days_in_month (dt_year now) (dt_month now)"
    and marker: "(marker = Vchera \<and> d + 1 = dt_day now) \<or> (marker = Segodnya \<and> d = dt_day now)"
    and d: "1 \<le> d"
    and ws: "ws \<noteq> []" "list_all is_space ws"
    and c: "h \<le> 23" "hs = str_nat h \<or> hs = zero_pad 2 (str_nat h)" "mi \<le> 59"
  shows "normalize_date now (marker @ ws @ hs @ ascii '':'' @ zero_pad 2 (str_nat mi))
    = Inr (zero_pad 4 (str_nat (dt_year now)) @ ascii ''-''
           @ zero_pad 2 (str_nat (dt_month now)) @ ascii ''-''
           @ zero_pad 2 (str_nat d) @ ascii '' ''
           @ zero_pad 2 (str_nat h) @ ascii '':'' @ zero_pad 2 (str_nat mi))"
proof -
  let ?date = "marker @ ws @ hs @ 58 # zero_pad 2 (str_nat mi)"
  let ?y = "dt_year now" and ?m = "dt_month now"
  have col: "ascii '':'' = [58]" by (simp add: ascii_def)
  have cond: "contains Vchera ?date \<or> contains Segodnya ?date"
    using marker contains_prefix by auto
  have dle: "d \<le> days_in_month ?y ?m" using marker now(5) by auto
  then have d31: "d \<le> 31" using days_in_month_le_31 [of ?y ?m] by linarith
  have y4: "zero_pad 4 (str_nat ?y) = str_nat ?y"
    using now by (simp add: zero_pad4_str_nat)
  have "strptime (str_nat d @ [32] @ zero_pad 2 (str_nat ?m) @ [32] @ zero_pad 4 (str_nat ?y)
           @ ws @ hs @ 58 # zero_pad 2 (str_nat mi)) (ascii ''%d %m %Y %H:%M'')
        = datetime_new ?y ?m d h mi 0"
    using d d31 now ws c by (intro strptime_full) (auto simp: is_space_def whitespace_def)
  also have "\<dots> = Inr \<lparr>dt_year = ?y, dt_month = ?m, dt_day = d, dt_hour = h,
      dt_minute = mi, dt_second = 0\<rparr>"
    using now d dle c by (intro datetime_new_ok) auto
  finally have sp: "strptime (convert_relative_date_to_absolute now ?date) (ascii ''%d %m %Y %H:%M'')
      = Inr \<lparr>dt_year = ?y, dt_month = ?m, dt_day = d, dt_hour = h,
          dt_minute = mi, dt_second = 0\<rparr>"
    unfolding convert_relative [OF marker ws(2) c(2)] y4 .
  show ?thesis
    unfolding col using cond sp
    by (simp add: normalize_date_def drop_last3_str_datetime str_date_def ascii_def)
qed

text \<open>The example of the specification: \<open>Vchera 15:29\<close> read on 2019-01-11 is
  \<open>2019-01-10 15:29\<close>.\<close>

theorem normalize_date_relative_witness:
  "normalize_date
     \<lparr>dt_year = 2019, dt_month = 1, dt_day = 11, dt_hour = 8, dt_minute = 30, dt_second = 0\<rparr>
     (Vchera @ ascii '' 15:29'')
   = Inr (ascii ''2019-01-10 15:29'')"
  using normalize_date_relative
    [of "\<lparr>dt_year = 2019, dt_month = 1, dt_day = 11, dt_hour = 8, dt_minute = 30,
          dt_second = 0\<rparr>" Vchera 10 "[32]" 15 "str_nat 15" 29]
  by (simp add: ascii_def zero_pad_def str_nat.simps days_in_month_def
        is_space_def whitespace_def)

text \<open>Claim C1 as stated fails: on the first day of a month \<open>Vchera 15:29\<close> gives no
  text at all, and neither does any relative date when the year of the clock has fewer
  than four digits.\<close>

theorem normalize_date_relative_counterexample:
  "normalize_date
     \<lparr>dt_year = 2019, dt_month = 2, dt_day = 1, dt_hour = 8, dt_minute = 30, dt_second = 0\<rparr>
     (Vchera @ ascii '' 15:29'')
   = Inl ValueError
   \<and> normalize_date
     \<lparr>dt_year = 999, dt_month = 1, dt_day = 11, dt_hour = 8, dt_minute = 30, dt_second = 0\<rparr>
     (Segodnya @ ascii '' 15:29'')
   = Inl ValueError"
  by (simp add: normalizer_defs)

text \<open>
  Claim C6, as it holds on the code. When the day of \<open>now\<close> is 1, a text with the
  marker \<open>Vchera\<close> (yesterday) is given the day number 0 and the month and year of
  \<open>now\<close>, without any rollover; \<open>strptime\<close> rejects the day 0, so \<open>normalize_date\<close>
  raises \<open>ValueError\<close> and produces no text.
\<close>

theorem normalize_date_yesterday_on_first:
  assumes "dt_day now = 1" "contains Vchera date"
  shows "normalize_date now date = Inl ValueError"
proof -
  obtain tl where conv: "convert_relative_date_to_absolute now date = 48 # 32 # tl"
    using assms
    by (simp add: convert_relative_date_to_absolute_def replace_relative_day_with_absolute_def
          get_current_day_def py_str_def str_nat_1 ascii_def)
  have "match_directive Dir_d (48 # 32 # tl) = []"
    by (simp add: regex_simps)
  then have "first_match [Dir_d, Spaces, Dir_m, Spaces, Dir_Y, Spaces, Dir_H, Literal 58, Dir_M]
      no_groups (48 # 32 # tl) = None"
    by (rule first_match_none)
  then show ?thesis
    using assms(2) by (simp add: normalize_date_def conv strptime_def compile_formats)
qed

theorem normalize_date_yesterday_on_first_witness:
  "normalize_date
     \<lparr>dt_year = 2019, dt_month = 3, dt_day = 1, dt_hour = 0, dt_minute = 5, dt_second = 0\<rparr>
     (Vchera @ ascii '' 23:58'')
   = Inl ValueError"
  using normalize_date_yesterday_on_first
    [of "\<lparr>dt_year = 2019, dt_month = 3, dt_day = 1, dt_hour = 0, dt_minute = 5,
          dt_second = 0\<rparr>" "Vchera @ ascii '' 23:58''"]
  by (simp add: contains_prefix)

text \<open>Claim C6 as stated fails: the text handed to \<open>strptime\<close> has the day 0, but the
  result is an error, not a date with day 0.\<close>

theorem normalize_date_yesterday_on_first_counterexample:
  "convert_relative_date_to_absolute
     \<lparr>dt_year = 2019, dt_month = 1, dt_day = 1, dt_hour = 9, dt_minute = 0, dt_second = 0\<rparr>
     (Vchera @ ascii '' 15:29'')
   = ascii ''0 01 2019 15:29''
   \<and> normalize_date
     \<lparr>dt_year = 2019, dt_month = 1, dt_day = 1, dt_hour = 9, dt_minute = 0, dt_second = 0\<rparr>
     (Vchera @ ascii '' 15:29'')
   \<noteq> Inr (ascii ''2019-01-00 15:29'')
   \<and> normalize_date
     \<lparr>dt_year = 2019, dt_month = 1, dt_day = 1, dt_hour = 9, dt_minute = 0, dt_second = 0\<rparr>
     (Vchera @ ascii '' 15:29'')
   = Inl ValueError"
  by (simp add: normalizer_defs)

text \<open>
  The absolute dates on which the code does what the specification says. Let the text
  be a day number \<open>d\<close> of one or two digits, whitespace, one of the twelve month names,
  whitespace, and then either a clock time or a year of four digits.
  \<^item> With a clock time \<open>H:MM\<close> or \<open>HH:MM\<close>, when the month has the day \<open>d\<close> in a year
    that is not a leap year, the result is \<open>YYYY-MM-DD HH:MM\<close> with the year of \<open>now\<close>
    and the day, month and time of the text.
  \<^item> With a year \<open>y\<close> from 1 to 9999, when the month has the day \<open>d\<close> in that year, the
    result is \<open>YYYY-MM-DD\<close> with the year, month and day of the text and no time.
\<close>

theorem normalize_date_absolute:
  assumes name: "map_of months name = Some (str_nat m)"
    and d: "1 \<le> d" "ds = str_nat d \<or> ds = zero_pad 2 (str_nat d)"
    and w: "w1 \<noteq> []" "list_all is_space w1" "w2 \<noteq> []" "list_all is_space w2"
  shows "(h \<le> 23 \<and> (hs = str_nat h \<or> hs = zero_pad 2 (str_nat h)) \<and> mi \<le> 59
          \<and> d \<le> days_in_month 1900 m \<and> 1 \<le> dt_year now \<and> dt_year now \<le> 9999
        \<longrightarrow> normalize_date now (ds @ w1 @ name @ w2 @ hs @ ascii '':'' @ zero_pad 2 (str_nat mi))
            = Inr (zero_pad 4 (str_nat (dt_year now)) @ ascii ''-''
                   @ zero_pad 2 (str_nat m) @ ascii ''-''
                   @ zero_pad 2 (str_nat d) @ ascii '' ''
                   @ zero_pad 2 (str_nat h) @ ascii '':'' @ zero_pad 2 (str_nat mi)))
       \<and> (1 \<le> y \<and> y \<le> 9999 \<and> d \<le> days_in_month y m
        \<longrightarrow> normalize_date now (ds @ w1 @ name @ w2 @ zero_pad 4 (str_nat y))
            = Inr (zero_pad 4 (str_nat y) @ ascii ''-''
                   @ zero_pad 2 (str_nat m) @ ascii ''-'' @ zero_pad 2 (str_nat d)))"
proof (intro conjI impI)
  assume "h \<le> 23 \<and> (hs = str_nat h \<or> hs = zero_pad 2 (str_nat h)) \<and> mi \<le> 59
      \<and> d \<le> days_in_month 1900 m \<and> 1 \<le> dt_year now \<and> dt_year now \<le> 9999"
  then show "normalize_date now (ds @ w1 @ name @ w2 @ hs @ ascii '':'' @ zero_pad 2 (str_nat mi))
      = Inr (zero_pad 4 (str_nat (dt_year now)) @ ascii ''-''
             @ zero_pad 2 (str_nat m) @ ascii ''-''
             @ zero_pad 2 (str_nat d) @ ascii '' ''
             @ zero_pad 2 (str_nat h) @ ascii '':'' @ zero_pad 2 (str_nat mi))"
    using name d w by (intro normalize_date_with_time) auto
next
  assume "1 \<le> y \<and> y \<le> 9999 \<and> d \<le> days_in_month y m"
  then show "normalize_date now (ds @ w1 @ name @ w2 @ zero_pad 4 (str_nat y))
      = Inr (zero_pad 4 (str_nat y) @ ascii ''-''
             @ zero_pad 2 (str_nat m) @ ascii ''-'' @ zero_pad 2 (str_nat d))"
    using name d w by (intro normalize_date_with_year) auto
qed

text \<open>The examples of the specification, with \<open>marta\<close> (of March): \<open>5 marta 09:41\<close>
  read in 2019 is \<open>2019-03-05 09:41\<close>, and \<open>5 marta 2019\<close> is \<open>2019-03-05\<close>.\<close>

theorem normalize_date_absolute_witness:
  "normalize_date
     \<lparr>dt_year = 2019, dt_month = 3, dt_day = 5, dt_hour = 12, dt_minute = 0, dt_second = 0\<rparr>
     (ascii ''5 '' @ [1084, 1072, 1088, 1090, 1072] @ ascii '' 09:41'')
   = Inr (ascii ''2019-03-05 09:41'')
   \<and> normalize_date
     \<lparr>dt_year = 2019, dt_month = 3, dt_day = 5, dt_hour = 12, dt_minute = 0, dt_second = 0\<rparr>
     (ascii ''5 '' @ [1084, 1072, 1088, 1090, 1072] @ ascii '' 2019'')
   = Inr (ascii ''2019-03-05'')"
  using normalize_date_absolute
    [of "[1084, 1072, 1088, 1090, 1072]" 3 5 "str_nat 5" "[32]" "[32]" 9
        "zero_pad 2 (str_nat 9)" 41
        "\<lparr>dt_year = 2019, dt_month = 3, dt_day = 5, dt_hour = 12, dt_minute = 0,
          dt_second = 0\<rparr>" 2019]
  by (simp add: ascii_def zero_pad_def str_nat.simps days_in_month_def is_leap_def
        is_space_def whitespace_def months_def)

text \<open>The other example of the specification: \<open>10 yanvarya 2019\<close> is \<open>2019-01-10\<close>,
  whatever the clock says.\<close>

lemma normalize_date_example_with_year:
  "normalize_date now (ascii ''10 '' @ [1103, 1085, 1074, 1072, 1088, 1103] @ ascii '' 2019'')
   = Inr (ascii ''2019-01-10'')"
  using normalize_date_with_year
    [of "[1103, 1085, 1074, 1072, 1088, 1103]" 1 10 2019 "str_nat 10" "[32]" "[32]" now]
  by (simp add: ascii_def zero_pad_def str_nat.simps days_in_month_def is_leap_def
        is_space_def whitespace_def months_def)

text \<open>Texts outside these forms are rejected: a day and a month name alone,
  \<open>10 yanvarya\<close>, have neither a clock time nor a year, and \<open>31 fevralya 2019\<close> names a
  day that the month does not have; \<open>strptime\<close> raises \<open>ValueError\<close> for both.\<close>

theorem normalize_date_rejected_texts:
  "normalize_date now (ascii ''10 '' @ [1103, 1085, 1074, 1072, 1088, 1103])
   = Inl ValueError
   \<and> normalize_date now
     (ascii ''31 '' @ [1092, 1077, 1074, 1088, 1072, 1083, 1103] @ ascii '' 2019'')
   = Inl ValueError"
  by (simp add: normalizer_defs)

text \<open>
  Claim C4 says that a text without a relative marker, with a known month name and a
  clock time, is normalized to \<open>YYYY-MM-DD HH:MM\<close> with the year of the clock and the
  day, month and time of the text. The code breaks this on 29 February: with a clock
  time \<open>strptime\<close> has no year and checks the day against the year 1900, so
  \<open>29 fevralya 10:00\<close> raises \<open>ValueError\<close> for every reading of the clock, also in a
  leap year, before the year of the clock is put in. The path with a year accepts the
  same day: \<open>29 fevralya 2020\<close> is \<open>2020-02-29\<close>.
\<close>

theorem normalize_date_february_29_with_time:
  "normalize_date now
     (ascii ''29 '' @ [1092, 1077, 1074, 1088, 1072, 1083, 1103] @ ascii '' 10:00'')
   = Inl ValueError
   \<and> normalize_date now
     (ascii ''29 '' @ [1092, 1077, 1074, 1088, 1072, 1083, 1103] @ ascii '' 2020'')
   = Inr (ascii ''2020-02-29'')"
  by (simp add: normalizer_defs)

section \<open>Properties of the price extraction\<close>

lemma py_int_digits:
  "py_int (filter is_digit s)
   = (if filter is_digit s = [] \<or> int_max_str_digits < length (filter is_digit s)
      then Inl ValueError
      else Inr (int (digits_value (filter is_digit s))))"
  by (auto simp: py_int_def list_all_iff)

lemma filter_replicate_digit: "filter is_digit (replicate n 49) = replicate n 49"
  by (induction n) (simp_all add: is_digits)

text \<open>
  Claim C9, as it holds on the code. When the span of class \<open>snippet-price\<close> starts with
  a text, \<open>get_price\<close> never raises: it removes every character that is not a decimal
  digit and returns the number that the remaining digits denote, which is not
  negative. The price is \<open>None\<close> exactly when no digit remains or when more digits
  remain than \<open>int\<close> converts (4300).
\<close>

theorem get_price_of_text:
  assumes "price_span a = Some (Text price_str # rest)"
  shows "get_price a
      = Inr (if filter is_digit price_str = []
                \<or> int_max_str_digits < length (filter is_digit price_str)
             then None
             else Some (int (digits_value (filter is_digit price_str))))
    \<and> (get_price a = Inr None
        \<longleftrightarrow> filter is_digit price_str = []
            \<or> int_max_str_digits < length (filter is_digit price_str))
    \<and> (\<forall>n. get_price a = Inr (Some n) \<longrightarrow> 0 \<le> n)"
  using assms by (auto simp: get_price_def py_int_digits)

text \<open>The examples of the specification: \<open>1 234 567\<close> followed by the rouble sign
  (U+20BD) is 1234567, and \<open>Besplatno\<close> (free of charge) has no price.\<close>

theorem get_price_of_text_witness:
  "get_price \<lparr>url_anchor = None,
              price_span = Some [Text (ascii ''1 234 567 '' @ [8381])],
              date_info = None\<rparr> = Inr (Some 1234567)
   \<and> get_price \<lparr>url_anchor = None,
              price_span = Some [Text [1041, 1077, 1089, 1087, 1083, 1072, 1090, 1085, 1086]],
              date_info = None\<rparr> = Inr None"
  using get_price_of_text
      [of "\<lparr>url_anchor = None, price_span = Some [Text (ascii ''1 234 567 '' @ [8381])],
            date_info = None\<rparr>" "ascii ''1 234 567 '' @ [8381]" "[]"]
    get_price_of_text
      [of "\<lparr>url_anchor = None,
            price_span = Some [Text [1041, 1077, 1089, 1087, 1083, 1072, 1090, 1085, 1086]],
            date_info = None\<rparr>" "[1041, 1077, 1089, 1087, 1083, 1072, 1090, 1085, 1086]" "[]"]
  by (simp add: ascii_def is_digit_def decimal_def unicode_zeros_def digits_value_def
        digit_val_def int_max_str_digits_def)

text \<open>Claim C9 as stated fails: a price text of 4301 digits \<open>1\<close> keeps all its digits,
  \<open>int\<close> raises \<open>ValueError\<close> for their number, and the price is \<open>None\<close>.\<close>

theorem get_price_of_text_counterexample:
  "get_price \<lparr>url_anchor = None, price_span = Some [Text (replicate 4301 49)],
              date_info = None\<rparr> = Inr None
   \<and> filter is_digit (replicate 4301 49) = replicate 4301 49
   \<and> length (replicate 4301 (49 :: nat)) = 4301"
  by (simp add: get_price_def py_int_def filter_replicate_digit int_max_str_digits_def)

section \<open>Properties of the search URL\<close>

lemma hex_digit_no_brace: "k < 16 \<Longrightarrow> hex_digit k \<noteq> 123 \<and> hex_digit k \<noteq> 125"
  by (simp add: hex_digit_def)

lemma quote_byte_no_brace:
  assumes "b < 256"
  shows "123 \<notin> set (quote_byte b)" "125 \<notin> set (quote_byte b)"
proof -
  have "b mod 16 < 16" "b div 16 < 16" using assms by simp_all
  note h = hex_digit_no_brace [OF this(1)] hex_digit_no_brace [OF this(2)]
  have s: "always_safe b \<Longrightarrow> b \<noteq> 123 \<and> b \<noteq> 125"
    by (auto simp: always_safe_def in_range_def ascii_def)
  show "123 \<notin> set (quote_byte b)" "125 \<notin> set (quote_byte b)"
    using h s by (auto simp: quote_byte_def)
qed

lemma utf8_encode_bytes:
  assumes "utf8_encode c = Inr bytes"
  shows "\<forall>b\<in>set bytes. b < 256"
proof -
  have m: "c mod 64 < 64" "c div 64 mod 64 < 64" "c div 4096 mod 64 < 64" by simp_all
  have "c < 2048 \<Longrightarrow> c div 64 < 32" "c < 65536 \<Longrightarrow> c div 4096 < 16"
    "c < 1114112 \<Longrightarrow> c div 262144 < 16" by simp_all
  with assms m show ?thesis
    by (auto simp: utf8_encode_def split: if_splits)
qed

lemma quote_no_brace:
  "quote q = Inr r \<Longrightarrow> 123 \<notin> set r \<and> 125 \<notin> set r"
proof (induction q arbitrary: r)
  case Nil
  then show ?case by simp
next
  case (Cons c cs)
  then show ?case
    by (auto simp: quote_byte_no_brace dest!: utf8_encode_bytes split: sum.splits)
qed

lemma utf8_encode_scalar:
  "c < 55296 \<or> (57343 < c \<and> c < 1114112) \<Longrightarrow> \<exists>bytes. utf8_encode c = Inr bytes"
  by (auto simp: utf8_encode_def)

lemma quote_scalar:
  "\<forall>c\<in>set q. c < 55296 \<or> (57343 < c \<and> c < 1114112) \<Longrightarrow> \<exists>r. quote q = Inr r"
proof (induction q)
  case Nil
  then show ?case by simp
next
  case (Cons c cs)
  then obtain r where r: "quote cs = Inr r" by auto
  obtain bytes where b: "utf8_encode c = Inr bytes"
    using utf8_encode_scalar [of c] Cons.prems by auto
  show ?case by (simp add: r b)
qed

lemma format_fields_placeholder:
  assumes "123 \<notin> set p" "125 \<notin> set p"
  shows "format_fields (p @ [123, 125]) [a] = Inr (p @ a)"
  using assms
proof (induction p)
  case Nil
  then show ?case by simp
next
  case (Cons c p)
  obtain d s where ds: "p @ [123, 125] = d # s" by (cases p) auto
  have "format_fields (c # d # s) [a] = map_sum id ((#) c) (format_fields (d # s) [a])"
    using Cons.prems by simp
  then show ?case using Cons ds by simp
qed

lemma sort_values_keys:
  "map_of sort_values sort_by = None \<longleftrightarrow>
     sort_by \<notin> {None, Some (ascii ''date''), Some (ascii ''price''), Some (ascii ''price_desc'')}"
  by (auto simp: sort_values_def)

lemma owners_keys:
  "map_of owners owner = None \<longleftrightarrow>
     owner \<notin> {None, Some (ascii ''private''), Some (ascii ''company'')}"
  by (auto simp: owners_def)

lemma sort_values_no_brace:
  "map_of sort_values sort_by = Some v \<Longrightarrow> 123 \<notin> set v \<and> 125 \<notin> set v"
  by (auto simp: sort_values_def ascii_def split: if_splits)

lemma owners_no_brace:
  "map_of owners owner = Some v \<Longrightarrow> 123 \<notin> set v \<and> 125 \<notin> set v"
  by (auto simp: owners_def ascii_def split: if_splits)

lemma str_of_bool_no_brace: "123 \<notin> set (str_of_bool b) \<and> 125 \<notin> set (str_of_bool b)"
  by (simp add: str_of_bool_def py_str_def str_nat_1)

lemma placeholder: "ascii ''&p={}'' = ascii ''&p='' @ [123, 125]"
  by (simp add: ascii_def)

lemma generate_search_url_valid:
  assumes q: "\<forall>c\<in>set query. c < 55296 \<or> (57343 < c \<and> c < 1114112)"
    and s: "map_of sort_values sort_by = Some sv"
    and ow: "map_of owners owner = Some ov"
  shows "\<exists>prefix. generate_search_url query sort_by by_title with_images owner
            = Inr (prefix @ ascii ''&p={}'')
          \<and> (\<forall>n. format_page_number (prefix @ ascii ''&p={}'') n
                 = Inr (prefix @ ascii ''&p='' @ str_nat n))"
proof -
  obtain r where r: "quote query = Inr r" using quote_scalar [OF q] by auto
  let ?prefix = "ascii ''https://www.avito.ru/moskva?s='' @ sv
       @ ascii ''&bt='' @ str_of_bool by_title @ ascii ''&q='' @ r
       @ ascii ''&i='' @ str_of_bool with_images @ ascii ''&user='' @ ov"
  have g: "generate_search_url query sort_by by_title with_images owner
      = Inr (?prefix @ ascii ''&p={}'')"
    by (simp add: generate_search_url_def s ow r)
  have nb: "123 \<notin> set (?prefix @ ascii ''&p='')" "125 \<notin> set (?prefix @ ascii ''&p='')"
    using sort_values_no_brace [OF s] owners_no_brace [OF ow] quote_no_brace [OF r]
      str_of_bool_no_brace [of by_title] str_of_bool_no_brace [of with_images]
    by (auto simp: ascii_def)
  have "format_page_number (?prefix @ ascii ''&p={}'') n
      = Inr (?prefix @ ascii ''&p='' @ str_nat n)" for n
    using format_fields_placeholder [OF nb, of "str_nat n"]
    by (simp add: format_page_number_def placeholder)
  with g show ?thesis by blast
qed

text \<open>
  Claim C8. The URL builder raises \<open>ValueError\<close> exactly when \<open>sort_by\<close> is not one of
  the keys \<open>None\<close>, \<open>date\<close>, \<open>price\<close>, \<open>price_desc\<close> of its dictionary \<open>sort_values\<close> (the
  sort orders relevance, date, ascending price and descending price) or \<open>owner\<close> is not
  one of the keys \<open>None\<close>, \<open>private\<close>, \<open>company\<close> of \<open>owners\<close>. For keys of the
  dictionaries it returns a URL that ends in the placeholder \<open>{}\<close> for the page
  number, and formatting that URL with a page number succeeds. The error comes
  before the first request: the run of \<open>get_all_ads\<close> ends with it and an empty
  trace. The query is a text of Unicode scalar values (no surrogate code points).
\<close>

theorem generate_search_url_parameters:
  assumes "\<forall>c\<in>set query. c < 55296 \<or> (57343 < c \<and> c < 1114112)"
  shows "(generate_search_url query sort_by by_title with_images owner = Inl ValueError
          \<longleftrightarrow> sort_by \<notin> {None, Some (ascii ''date''), Some (ascii ''price''),
                          Some (ascii ''price_desc'')}
              \<or> owner \<notin> {None, Some (ascii ''private''), Some (ascii ''company'')})
    \<and> (sort_by \<in> {None, Some (ascii ''date''), Some (ascii ''price''),
                    Some (ascii ''price_desc'')}
        \<and> owner \<in> {None, Some (ascii ''private''), Some (ascii ''company'')}
        \<longrightarrow> (\<exists>prefix. generate_search_url query sort_by by_title with_images owner
                    = Inr (prefix @ ascii ''&p={}'')
                \<and> (\<forall>n. format_page_number (prefix @ ascii ''&p={}'') n
                       = Inr (prefix @ ascii ''&p='' @ str_nat n))))
    \<and> (generate_search_url query sort_by by_title with_images owner = Inl ValueError
        \<longrightarrow> get_all_ads web clock query sort_by by_title with_images owner pause
            = Some (Failed (Python ValueError), []))"
proof (intro conjI impI)
  show "generate_search_url query sort_by by_title with_images owner = Inl ValueError
      \<longleftrightarrow> sort_by \<notin> {None, Some (ascii ''date''), Some (ascii ''price''),
                      Some (ascii ''price_desc'')}
          \<or> owner \<notin> {None, Some (ascii ''private''), Some (ascii ''company'')}"
  proof (cases "map_of sort_values sort_by")
    case None
    then show ?thesis
      using sort_values_keys [of sort_by] by (simp add: generate_search_url_def)
  next
    case s: (Some sv)
    show ?thesis
    proof (cases "map_of owners owner")
      case None
      then show ?thesis
        using owners_keys [of owner] s by (simp add: generate_search_url_def)
    next
      case (Some ov)
      from generate_search_url_valid [OF assms s Some, of by_title with_images]
      obtain prefix where "generate_search_url query sort_by by_title with_images owner
          = Inr (prefix @ ascii ''&p={}'')" by blast
      then have "generate_search_url query sort_by by_title with_images owner \<noteq> Inl ValueError"
        by simp
      then show ?thesis
        using sort_values_keys [of sort_by] owners_keys [of owner] s Some by simp
    qed
  qed
next
  assume "sort_by \<in> {None, Some (ascii ''date''), Some (ascii ''price''),
                      Some (ascii ''price_desc'')}
      \<and> owner \<in> {None, Some (ascii ''private''), Some (ascii ''company'')}"
  then obtain sv ov where "map_of sort_values sort_by = Some sv" "map_of owners owner = Some ov"
    using sort_values_keys [of sort_by] owners_keys [of owner] by auto
  from generate_search_url_valid [OF assms this]
  show "\<exists>prefix. generate_search_url query sort_by by_title with_images owner
            = Inr (prefix @ ascii ''&p={}'')
          \<and> (\<forall>n. format_page_number (prefix @ ascii ''&p={}'') n
                 = Inr (prefix @ ascii ''&p='' @ str_nat n))" .
next
  assume "generate_search_url query sort_by by_title with_images owner = Inl ValueError"
  then show "get_all_ads web clock query sort_by by_title with_images owner pause
      = Some (Failed (Python ValueError), [])"
    by (simp add: get_all_ads_def)
qed

lemmas url_defs = generate_search_url_def sort_values_def owners_def str_of_bool_def
  py_str_def str_nat.simps quote_byte_def always_safe_def hex_digit_def utf8_encode_def
  in_range_def ascii_def

text \<open>The query \<open>audi tt\<close> sorted by ascending price; the names \<open>price_asc\<close> and
  \<open>any\<close> are not keys of the dictionaries.\<close>

theorem generate_search_url_parameters_witness:
  "generate_search_url (ascii ''audi tt'') (Some (ascii ''price'')) False True None
     = Inr (ascii ''https://www.avito.ru/moskva?s=1&bt=0&q=audi%20tt&i=1&user=0&p={}'')
   \<and> generate_search_url (ascii ''audi tt'') (Some (ascii ''price_asc'')) False True None
     = Inl ValueError
   \<and> generate_search_url (ascii ''audi tt'') None False True (Some (ascii ''any''))
     = Inl ValueError"
proof -
  have q: "\<forall>c\<in>set (ascii ''audi tt''). c < 55296 \<or> (57343 < c \<and> c < 1114112)"
    by (simp add: ascii_def)
  have 1: "generate_search_url (ascii ''audi tt'') (Some (ascii ''price'')) False True None
     = Inr (ascii ''https://www.avito.ru/moskva?s=1&bt=0&q=audi%20tt&i=1&user=0&p={}'')"
    by (simp add: url_defs)
  show ?thesis
    using generate_search_url_parameters
        [OF q, of "Some (ascii ''price_asc'')" False True None]
      generate_search_url_parameters
        [OF q, of None False True "Some (ascii ''any'')"]
      1
    by (simp add: ascii_def)
qed

section \<open>Properties of the traces\<close>

lemma n_requests_simps:
  "n_requests [] = 0"
  "n_requests (tr @ [Request u]) = Suc (n_requests tr)"
  "n_requests (tr @ [Sleep s]) = n_requests tr"
  "n_requests (tr @ [Emit i]) = n_requests tr"
  "n_requests (tr @ map Emit infos) = n_requests tr"
  by (simp_all add: n_requests_def filter_empty_conv)

lemma requested_append: "requested (a @ b) = requested a @ requested b"
  by (induction a rule: requested.induct) simp_all

lemma emitted_append: "emitted (a @ b) = emitted a @ emitted b"
  by (induction a rule: emitted.induct) simp_all

lemma requested_map_Emit: "requested (map Emit infos) = []"
  by (induction infos) simp_all

lemma emitted_map_Emit: "emitted (map Emit infos) = infos"
  by (induction infos) simp_all

lemma n_requests_requested: "n_requests tr = length (requested tr)"
  by (induction tr rule: requested.induct) (simp_all add: n_requests_def)

lemma sleep_valid:
  "valid_pause pause \<Longrightarrow> \<exists>evs. sleep pause tr = (Inr (), tr @ evs) \<and> requested evs = []
     \<and> emitted evs = []"
  by (auto simp: sleep_def valid_pause_def split: option.splits)

lemma sleep_trace:
  "sleep pause tr = (r, tr') \<Longrightarrow> \<exists>evs. tr' = tr @ evs \<and> requested evs = [] \<and> emitted evs = []"
  by (auto simp: sleep_def split: option.splits if_splits)

lemma fetch_page_trace:
  "fetch_page web u tr = (r, tr') \<Longrightarrow> tr' = tr @ [Request u]"
  by (auto simp: fetch_page_def Let_def split: if_splits)

lemma fetch_and_test_trace:
  assumes "fetch_and_test web search_url n tr = (r, tr')"
  shows "\<exists>evs. tr' = tr @ evs \<and> emitted evs = [] \<and> length (requested evs) \<le> 1"
proof (cases "format_page_number search_url n")
  case (Inl e)
  with assms show ?thesis by (simp add: fetch_and_test_def)
next
  case (Inr u)
  obtain x t where f: "fetch_page web u tr = (x, t)" by (cases "fetch_page web u tr")
  from fetch_page_trace [OF f] have t: "t = tr @ [Request u]" .
  from assms Inr f have "tr' = t"
    by (auto simp: fetch_and_test_def split: sum.splits if_splits)
  with t show ?thesis by simp
qed

lemma get_pages_next_trace:
  assumes "get_pages_next web search_url pause st tr = (r, tr')"
  shows "\<exists>evs. tr' = tr @ evs \<and> emitted evs = [] \<and> length (requested evs) \<le> 1"
proof (cases st)
  case Not_started
  with assms show ?thesis
    using fetch_and_test_trace by (simp add: get_pages_next_def)
next
  case (At_yield n)
  obtain x t where s: "sleep pause tr = (x, t)" by (cases "sleep pause tr")
  from sleep_trace [OF s] obtain e1 where
    e1: "t = tr @ e1" "requested e1 = []" "emitted e1 = []" by auto
  show ?thesis
  proof (cases x)
    case (Inl e)
    with assms At_yield s have "tr' = t" by (simp add: get_pages_next_def)
    with e1 show ?thesis by (intro exI [of _ e1]) simp
  next
    case (Inr y)
    with assms At_yield s have "fetch_and_test web search_url (n + 1) t = (r, tr')"
      by (simp add: get_pages_next_def)
    from fetch_and_test_trace [OF this] obtain e2 where
      "tr' = t @ e2" "emitted e2 = []" "length (requested e2) \<le> 1" by auto
    with e1 show ?thesis
      by (intro exI [of _ "e1 @ e2"]) (simp add: requested_append emitted_append)
  qed
next
  case Finished
  with assms show ?thesis by (simp add: get_pages_next_def)
qed

section \<open>Properties of the aggregation\<close>

lemma agregate_ad_info_canonical:
  "agregate_ad_info now a = Inr info \<Longrightarrow> canonical (Date info)"
  by (auto simp: agregate_ad_info_def split: sum.splits dest: normalize_date_canonical)

lemma yield_ads_emits:
  assumes "yield_ads clock ads tr = (r, tr')"
  shows "\<exists>infos. tr' = tr @ map Emit infos \<and> (\<forall>i\<in>set infos. canonical (Date i))"
  using assms
proof (induction ads arbitrary: tr)
  case Nil
  then show ?case by (intro exI [of _ "[]"]) simp
next
  case (Cons a ads)
  show ?case
  proof (cases "agregate_ad_info (clock (length tr)) a")
    case (Inl e)
    with Cons.prems show ?thesis by (intro exI [of _ "[]"]) simp
  next
    case (Inr info)
    with Cons.prems have "yield_ads clock ads (tr @ [Emit info]) = (r, tr')" by simp
    from Cons.IH [OF this] obtain infos where
      "tr' = (tr @ [Emit info]) @ map Emit infos" "\<forall>i\<in>set infos. canonical (Date i)" by auto
    with agregate_ad_info_canonical [OF Inr] show ?thesis
      by (intro exI [of _ "info # infos"]) simp
  qed
qed

lemma yield_ads_all_ok:
  assumes "\<forall>a\<in>set ads. ad_ok clock a"
  shows "\<exists>infos. yield_ads clock ads tr = (None, tr @ map Emit infos)
           \<and> length infos = length ads"
  using assms
proof (induction ads arbitrary: tr)
  case Nil
  then show ?case by simp
next
  case (Cons a ads)
  then obtain info where i: "agregate_ad_info (clock (length tr)) a = Inr info"
    unfolding ad_ok_def by (metis list.set_intros(1))
  from Cons obtain infos where
    "yield_ads clock ads (tr @ [Emit info]) = (None, (tr @ [Emit info]) @ map Emit infos)"
    "length infos = length ads" by (metis list.set_intros(2))
  with i show ?case by (intro exI [of _ "info # infos"]) simp
qed

lemma yield_ads_bad:
  assumes "\<forall>a\<in>set pre. ad_ok clock a" "\<forall>t. agregate_ad_info (clock t) bad = Inl e"
  shows "\<exists>infos. yield_ads clock (pre @ bad # post) tr = (Some e, tr @ map Emit infos)
           \<and> length infos = length pre"
  using assms(1)
proof (induction pre arbitrary: tr)
  case Nil
  then show ?case using assms(2) by simp
next
  case (Cons a pre)
  then obtain info where i: "agregate_ad_info (clock (length tr)) a = Inr info"
    unfolding ad_ok_def by (metis list.set_intros(1))
  from Cons obtain infos where
    "yield_ads clock (pre @ bad # post) (tr @ [Emit info])
       = (Some e, (tr @ [Emit info]) @ map Emit infos)"
    "length infos = length pre" by (metis list.set_intros(2))
  with i show ?case by (intro exI [of _ "info # infos"]) simp
qed

section \<open>Properties of the two loops\<close>

lemma get_all_ads_from_canonical_aux:
  assumes "get_all_ads_from web clock search_url pause st tr = Some y"
  shows "(\<forall>i\<in>set (emitted tr). canonical (Date i))
    \<longrightarrow> (\<forall>i\<in>set (emitted (snd y)). canonical (Date i))"
proof (rule get_all_ads_from.raw_induct
    [where P = "\<lambda>web clock search_url pause st tr y.
        (\<forall>i\<in>set (emitted tr). canonical (Date i))
        \<longrightarrow> (\<forall>i\<in>set (emitted (snd y)). canonical (Date i))", OF _ assms],
    goal_cases)
  case (1 rec web clock search_url pause st tr y)
  note IH = 1(1) and body = 1(2)
  show "(\<forall>i\<in>set (emitted tr). canonical (Date i))
    \<longrightarrow> (\<forall>i\<in>set (emitted (snd y)). canonical (Date i))"
  proof
    assume inv: "\<forall>i\<in>set (emitted tr). canonical (Date i)"
    obtain r tr' where n: "get_pages_next web search_url pause st tr = (r, tr')"
      by (cases "get_pages_next web search_url pause st tr")
    from get_pages_next_trace [OF n] obtain evs where "tr' = tr @ evs" "emitted evs = []"
      by auto
    with inv have inv': "\<forall>i\<in>set (emitted tr'). canonical (Date i)"
      by (simp add: emitted_append)
    show "\<forall>i\<in>set (emitted (snd y)). canonical (Date i)"
    proof (cases r)
      case Stop
      with body n inv' show ?thesis by auto
    next
      case (Raise e)
      with body n inv' show ?thesis by auto
    next
      case (Yield p st')
      show ?thesis
      proof (cases "get_ads_from_page p = []")
        case True
        with body n Yield inv' show ?thesis by auto
      next
        case False
        obtain r2 tr'' where ya: "yield_ads clock (get_ads_from_page p) tr' = (r2, tr'')"
          by (cases "yield_ads clock (get_ads_from_page p) tr'")
        from yield_ads_emits [OF ya] obtain infos where
          "tr'' = tr' @ map Emit infos" "\<forall>i\<in>set infos. canonical (Date i)" by auto
        with inv' have inv'': "\<forall>i\<in>set (emitted tr''). canonical (Date i)"
          by (auto simp: emitted_append emitted_map_Emit)
        show ?thesis
        proof (cases r2)
          case None
          with body n Yield False ya
          have "rec web clock search_url pause st' tr'' = Some y" by (simp add: Let_def)
          from IH [OF this] inv'' show ?thesis by blast
        next
          case (Some e)
          with body n Yield False ya inv'' show ?thesis by (auto simp: Let_def)
        qed
      qed
    qed
  qed
qed

lemma get_all_ads_from_canonical:
  assumes "get_all_ads_from web clock search_url pause st tr = Some y"
    and "\<forall>i\<in>set (emitted tr). canonical (Date i)"
  shows "\<forall>i\<in>set (emitted (snd y)). canonical (Date i)"
  using get_all_ads_from_canonical_aux [OF assms(1)] assms(2) by blast

lemma state_after_simps: "state_after 0 = Not_started" "state_after (Suc i) = At_yield (Suc i)"
  by (simp_all add: state_after_def)

text \<open>One call of the generator after \<open>i\<close> pages, when the template formats and the
  pause is valid: the outcome depends on the answer to the request number \<open>i\<close> only.\<close>

lemma get_pages_next_step:
  assumes fmt: "\<forall>n. format_page_number search_url n = Inr (u n)"
    and vp: "valid_pause pause"
    and req: "requested tr = map u [1 ..< Suc i]"
  shows "\<exists>tr1. requested tr1 = map u [1 ..< Suc (Suc i)] \<and> emitted tr1 = emitted tr
      \<and> tr1 \<noteq> [] \<and> last tr1 = Request (u (Suc i))
      \<and> get_pages_next web search_url pause (state_after i) tr =
         (if resp_url (web i (u (Suc i))) = ascii ''https://www.avito.ru/blocked''
          then (Raise (Python TooManyRequests), tr1)
          else if is_page_exists (resp_text (web i (u (Suc i))))
          then (Yield (resp_text (web i (u (Suc i)))) (state_after (Suc i)), tr1)
          else (Stop, tr1))"
proof -
  obtain evs where s: "sleep pause tr = (Inr (), tr @ evs)" "requested evs = []"
    "emitted evs = []" using sleep_valid [OF vp] by blast
  define t0 where "t0 = (if i = 0 then tr else tr @ evs)"
  have t0: "requested t0 = map u [1 ..< Suc i]" "emitted t0 = emitted tr"
    using req s by (auto simp: t0_def requested_append emitted_append)
  then have n0: "n_requests t0 = i" by (simp add: n_requests_requested)
  have ft: "fetch_and_test web search_url (Suc i) t0 =
      (if resp_url (web i (u (Suc i))) = ascii ''https://www.avito.ru/blocked''
       then (Raise (Python TooManyRequests), t0 @ [Request (u (Suc i))])
       else if is_page_exists (resp_text (web i (u (Suc i))))
       then (Yield (resp_text (web i (u (Suc i)))) (At_yield (Suc i)), t0 @ [Request (u (Suc i))])
       else (Stop, t0 @ [Request (u (Suc i))]))"
    using fmt n0 by (simp add: fetch_and_test_def fetch_page_def Let_def)
  have gp: "get_pages_next web search_url pause (state_after i) tr
      = fetch_and_test web search_url (Suc i) t0"
    using s by (cases i) (simp_all add: get_pages_next_def state_after_def t0_def)
  have "requested (t0 @ [Request (u (Suc i))]) = map u [1 ..< Suc (Suc i)]"
    using t0 by (simp add: requested_append)
  moreover have "emitted (t0 @ [Request (u (Suc i))]) = emitted tr"
    using t0 by (simp add: emitted_append)
  ultimately show ?thesis
    using gp ft by (intro exI [of _ "t0 @ [Request (u (Suc i))]"]) (simp add: state_after_simps)
qed

lemma good_page_served: "good_page clock r \<Longrightarrow> page_served r"
  by (simp add: good_page_def)

lemma ads_good_step:
  assumes fmt: "\<forall>n. format_page_number search_url n = Inr (u n)"
    and vp: "valid_pause pause"
    and req: "requested tr = map u [1 ..< Suc i]"
    and good: "good_page clock (web i (u (Suc i)))"
  shows "\<exists>tr'. requested tr' = map u [1 ..< Suc (Suc i)]
    \<and> get_all_ads_from web clock search_url pause (state_after i) tr
      = get_all_ads_from web clock search_url pause (state_after (Suc i)) tr'"
proof -
  let ?r = "web i (u (Suc i))"
  let ?ads = "get_ads_from_page (resp_text ?r)"
  from get_pages_next_step [OF fmt vp req, of web] good obtain tr1 where
    tr1: "requested tr1 = map u [1 ..< Suc (Suc i)]"
    and st: "get_pages_next web search_url pause (state_after i) tr
      = (Yield (resp_text ?r) (state_after (Suc i)), tr1)"
    by (auto simp: good_page_def page_served_def)
  have ne: "?ads \<noteq> []" and ok: "\<forall>a\<in>set ?ads. ad_ok clock a"
    using good by (simp_all add: good_page_def)
  from yield_ads_all_ok [OF ok, of tr1] obtain infos where
    ya: "yield_ads clock ?ads tr1 = (None, tr1 @ map Emit infos)" by blast
  have "get_all_ads_from web clock search_url pause (state_after i) tr
      = get_all_ads_from web clock search_url pause (state_after (Suc i)) (tr1 @ map Emit infos)"
    by (subst get_all_ads_from.simps) (simp add: st ne ya)
  moreover have "requested (tr1 @ map Emit infos) = map u [1 ..< Suc (Suc i)]"
    using tr1 by (simp add: requested_append requested_map_Emit)
  ultimately show ?thesis by blast
qed

lemma ads_advance:
  assumes fmt: "\<forall>n. format_page_number search_url n = Inr (u n)"
    and vp: "valid_pause pause"
    and le: "i \<le> k"
    and good: "\<forall>j. i \<le> j \<and> j < k \<longrightarrow> good_page clock (web j (u (Suc j)))"
    and req: "requested tr = map u [1 ..< Suc i]"
  shows "\<exists>tr'. requested tr' = map u [1 ..< Suc k]
    \<and> get_all_ads_from web clock search_url pause (state_after i) tr
      = get_all_ads_from web clock search_url pause (state_after k) tr'"
  using le good
proof (induction k rule: dec_induct)
  case base
  then show ?case using req by blast
next
  case (step n)
  then obtain tr' where
    tr': "requested tr' = map u [1 ..< Suc n]"
    "get_all_ads_from web clock search_url pause (state_after i) tr
      = get_all_ads_from web clock search_url pause (state_after n) tr'"
    by auto
  have "good_page clock (web n (u (Suc n)))" using step by simp
  from ads_good_step [where web = web and u = u and i = n, OF fmt vp tr'(1) this] tr'(2)
  show ?case by auto
qed

lemma ads_end_blocked:
  assumes fmt: "\<forall>n. format_page_number search_url n = Inr (u n)"
    and vp: "valid_pause pause"
    and req: "requested tr = map u [1 ..< Suc k]"
    and blocked: "resp_url (web k (u (Suc k))) = ascii ''https://www.avito.ru/blocked''"
  shows "\<exists>tr'. get_all_ads_from web clock search_url pause (state_after k) tr
      = Some (Failed (Python TooManyRequests), tr')
    \<and> requested tr' = map u [1 ..< Suc (Suc k)] \<and> last tr' = Request (u (Suc k))"
proof -
  from get_pages_next_step [OF fmt vp req, of web] blocked obtain tr1 where
    tr1: "requested tr1 = map u [1 ..< Suc (Suc k)]" "last tr1 = Request (u (Suc k))"
    and st: "get_pages_next web search_url pause (state_after k) tr
      = (Raise (Python TooManyRequests), tr1)"
    by auto
  have "get_all_ads_from web clock search_url pause (state_after k) tr
      = Some (Failed (Python TooManyRequests), tr1)"
    by (subst get_all_ads_from.simps) (simp add: st)
  with tr1 show ?thesis by blast
qed

lemma ads_end_nothing_found:
  assumes fmt: "\<forall>n. format_page_number search_url n = Inr (u n)"
    and vp: "valid_pause pause"
    and req: "requested tr = map u [1 ..< Suc k]"
    and nb: "resp_url (web k (u (Suc k))) \<noteq> ascii ''https://www.avito.ru/blocked''"
    and nf: "nothing_found (resp_text (web k (u (Suc k))))"
  shows "\<exists>tr'. get_all_ads_from web clock search_url pause (state_after k) tr
      = Some (Done, tr')
    \<and> requested tr' = map u [1 ..< Suc (Suc k)] \<and> last tr' = Request (u (Suc k))"
proof -
  from get_pages_next_step [OF fmt vp req, of web] nb nf obtain tr1 where
    tr1: "requested tr1 = map u [1 ..< Suc (Suc k)]" "last tr1 = Request (u (Suc k))"
    and st: "get_pages_next web search_url pause (state_after k) tr = (Stop, tr1)"
    by (auto simp: is_page_exists_def)
  have "get_all_ads_from web clock search_url pause (state_after k) tr = Some (Done, tr1)"
    by (subst get_all_ads_from.simps) (simp add: st)
  with tr1 show ?thesis by blast
qed

lemma ads_end_empty:
  assumes fmt: "\<forall>n. format_page_number search_url n = Inr (u n)"
    and vp: "valid_pause pause"
    and req: "requested tr = map u [1 ..< Suc k]"
    and served: "page_served (web k (u (Suc k)))"
    and empty: "get_ads_from_page (resp_text (web k (u (Suc k)))) = []"
  shows "\<exists>tr'. get_all_ads_from web clock search_url pause (state_after k) tr
      = Some (Done, tr')
    \<and> requested tr' = map u [1 ..< Suc (Suc k)] \<and> last tr' = Request (u (Suc k))"
proof -
  from get_pages_next_step [OF fmt vp req, of web] served obtain tr1 where
    tr1: "requested tr1 = map u [1 ..< Suc (Suc k)]" "last tr1 = Request (u (Suc k))"
    and st: "get_pages_next web search_url pause (state_after k) tr
      = (Yield (resp_text (web k (u (Suc k)))) (state_after (Suc k)), tr1)"
    by (auto simp: page_served_def)
  have "get_all_ads_from web clock search_url pause (state_after k) tr = Some (Done, tr1)"
    by (subst get_all_ads_from.simps) (simp add: st empty)
  with tr1 show ?thesis by blast
qed

lemma ads_end_bad:
  assumes fmt: "\<forall>n. format_page_number search_url n = Inr (u n)"
    and vp: "valid_pause pause"
    and req: "requested tr = map u [1 ..< Suc k]"
    and served: "page_served (web k (u (Suc k)))"
    and ads: "get_ads_from_page (resp_text (web k (u (Suc k)))) = pre @ bad # post"
    and pre: "\<forall>a\<in>set pre. ad_ok clock a"
    and bad: "\<forall>t. agregate_ad_info (clock t) bad = Inl e"
  shows "\<exists>tr' infos. get_all_ads_from web clock search_url pause (state_after k) tr
      = Some (Failed (Python e), tr' @ map Emit infos)
    \<and> requested tr' = map u [1 ..< Suc (Suc k)] \<and> last tr' = Request (u (Suc k))
    \<and> length infos = length pre"
proof -
  from get_pages_next_step [OF fmt vp req, of web] served obtain tr1 where
    tr1: "requested tr1 = map u [1 ..< Suc (Suc k)]" "last tr1 = Request (u (Suc k))"
    and st: "get_pages_next web search_url pause (state_after k) tr
      = (Yield (resp_text (web k (u (Suc k)))) (state_after (Suc k)), tr1)"
    by (auto simp: page_served_def)
  from yield_ads_bad [OF pre bad, of post tr1] obtain infos where
    ya: "yield_ads clock (pre @ bad # post) tr1 = (Some e, tr1 @ map Emit infos)"
    and len: "length infos = length pre" by blast
  have "get_all_ads_from web clock search_url pause (state_after k) tr
      = Some (Failed (Python e), tr1 @ map Emit infos)"
    by (subst get_all_ads_from.simps) (simp add: st ads ya)
  with tr1 len show ?thesis by blast
qed

lemma pages_good_step:
  assumes fmt: "\<forall>n. format_page_number search_url n = Inr (u n)"
    and vp: "valid_pause pause"
    and req: "requested tr = map u [1 ..< Suc i]"
    and served: "page_served (web i (u (Suc i)))"
  shows "\<exists>tr'. requested tr' = map u [1 ..< Suc (Suc i)]
    \<and> get_pages_from web search_url pause (state_after i) tr pages
      = get_pages_from web search_url pause (state_after (Suc i)) tr'
          (pages @ [resp_text (web i (u (Suc i)))])"
proof -
  from get_pages_next_step [OF fmt vp req, of web] served obtain tr1 where
    tr1: "requested tr1 = map u [1 ..< Suc (Suc i)]"
    and st: "get_pages_next web search_url pause (state_after i) tr
      = (Yield (resp_text (web i (u (Suc i)))) (state_after (Suc i)), tr1)"
    by (auto simp: page_served_def)
  have "get_pages_from web search_url pause (state_after i) tr pages
      = get_pages_from web search_url pause (state_after (Suc i)) tr1
          (pages @ [resp_text (web i (u (Suc i)))])"
    by (subst get_pages_from.simps) (simp add: st)
  with tr1 show ?thesis by blast
qed

lemma pages_advance:
  assumes fmt: "\<forall>n. format_page_number search_url n = Inr (u n)"
    and vp: "valid_pause pause"
    and le: "i \<le> k"
    and served: "\<forall>j. i \<le> j \<and> j < k \<longrightarrow> page_served (web j (u (Suc j)))"
    and req: "requested tr = map u [1 ..< Suc i]"
  shows "\<exists>tr'. requested tr' = map u [1 ..< Suc k]
    \<and> get_pages_from web search_url pause (state_after i) tr pages
      = get_pages_from web search_url pause (state_after k) tr'
          (pages @ map (\<lambda>j. resp_text (web j (u (Suc j)))) [i ..< k])"
  using le served
proof (induction k rule: dec_induct)
  case base
  then show ?case using req by auto
next
  case (step n)
  then obtain tr' where
    tr': "requested tr' = map u [1 ..< Suc n]"
    "get_pages_from web search_url pause (state_after i) tr pages
      = get_pages_from web search_url pause (state_after n) tr'
          (pages @ map (\<lambda>j. resp_text (web j (u (Suc j)))) [i ..< n])"
    by auto
  have "page_served (web n (u (Suc n)))" using step by simp
  from pages_good_step [where web = web and u = u and i = n, OF fmt vp tr'(1) this,
      of "pages @ map (\<lambda>j. resp_text (web j (u (Suc j)))) [i ..< n]"]
  obtain tr2 where "requested tr2 = map u [1 ..< Suc (Suc n)]"
    "get_pages_from web search_url pause (state_after n) tr'
        (pages @ map (\<lambda>j. resp_text (web j (u (Suc j)))) [i ..< n])
      = get_pages_from web search_url pause (state_after (Suc n)) tr2
          ((pages @ map (\<lambda>j. resp_text (web j (u (Suc j)))) [i ..< n])
            @ [resp_text (web n (u (Suc n)))])"
    by blast
  with tr'(2) step(1) show ?case by (intro exI [of _ tr2]) simp
qed

lemma pages_end:
  assumes fmt: "\<forall>n. format_page_number search_url n = Inr (u n)"
    and vp: "valid_pause pause"
    and req: "requested tr = map u [1 ..< Suc k]"
    and nb: "resp_url (web k (u (Suc k))) \<noteq> ascii ''https://www.avito.ru/blocked''"
    and nf: "nothing_found (resp_text (web k (u (Suc k))))"
  shows "\<exists>tr'. get_pages_from web search_url pause (state_after k) tr pages
      = Some (pages, Done, tr')
    \<and> requested tr' = map u [1 ..< Suc (Suc k)] \<and> last tr' = Request (u (Suc k))"
proof -
  from get_pages_next_step [OF fmt vp req, of web] nb nf obtain tr1 where
    tr1: "requested tr1 = map u [1 ..< Suc (Suc k)]" "last tr1 = Request (u (Suc k))"
    and st: "get_pages_next web search_url pause (state_after k) tr = (Stop, tr1)"
    by (auto simp: is_page_exists_def)
  have "get_pages_from web search_url pause (state_after k) tr pages = Some (pages, Done, tr1)"
    by (subst get_pages_from.simps) (simp add: st)
  with tr1 show ?thesis by blast
qed

lemma pages_bound:
  assumes fmt: "\<forall>n. format_page_number search_url n = Inr (u n)"
    and vp: "valid_pause pause"
    and le: "i \<le> k"
    and nb: "resp_url (web k (u (Suc k))) \<noteq> ascii ''https://www.avito.ru/blocked''"
    and nf: "nothing_found (resp_text (web k (u (Suc k))))"
  shows "\<forall>tr pages. requested tr = map u [1 ..< Suc i] \<longrightarrow>
    (\<exists>ps out tr'. get_pages_from web search_url pause (state_after i) tr pages
        = Some (ps, out, tr') \<and> length (requested tr') \<le> Suc k)"
  using le
proof (induction i rule: inc_induct)
  case base
  show ?case
  proof (intro allI impI)
    fix tr pages
    assume "requested tr = map u [1 ..< Suc k]"
    from pages_end [where web = web and u = u and k = k, OF fmt vp this nb nf, of pages] show
      "\<exists>ps out tr'. get_pages_from web search_url pause (state_after k) tr pages
        = Some (ps, out, tr') \<and> length (requested tr') \<le> Suc k"
      by auto
  qed
next
  case (step n)
  show ?case
  proof (intro allI impI)
    fix tr pages
    assume req: "requested tr = map u [1 ..< Suc n]"
    from get_pages_next_step [OF fmt vp req, of web] obtain tr1 where
      tr1: "requested tr1 = map u [1 ..< Suc (Suc n)]"
      and st: "get_pages_next web search_url pause (state_after n) tr =
         (if resp_url (web n (u (Suc n))) = ascii ''https://www.avito.ru/blocked''
          then (Raise (Python TooManyRequests), tr1)
          else if is_page_exists (resp_text (web n (u (Suc n))))
          then (Yield (resp_text (web n (u (Suc n)))) (state_after (Suc n)), tr1)
          else (Stop, tr1))"
      by blast
    have len: "length (requested tr1) \<le> Suc k" using tr1 step(2) by simp
    show "\<exists>ps out tr'. get_pages_from web search_url pause (state_after n) tr pages
        = Some (ps, out, tr') \<and> length (requested tr') \<le> Suc k"
    proof (cases "resp_url (web n (u (Suc n))) = ascii ''https://www.avito.ru/blocked''")
      case True
      have "get_pages_from web search_url pause (state_after n) tr pages
          = Some (pages, Failed (Python TooManyRequests), tr1)"
        by (subst get_pages_from.simps) (simp add: st True)
      with len show ?thesis by blast
    next
      case nb': False
      show ?thesis
      proof (cases "is_page_exists (resp_text (web n (u (Suc n))))")
        case True
        have "get_pages_from web search_url pause (state_after n) tr pages
            = get_pages_from web search_url pause (state_after (Suc n)) tr1
                (pages @ [resp_text (web n (u (Suc n)))])"
          by (subst get_pages_from.simps) (simp add: st nb' True)
        with step(3) tr1 show ?thesis by metis
      next
        case False
        have "get_pages_from web search_url pause (state_after n) tr pages
            = Some (pages, Done, tr1)"
          by (subst get_pages_from.simps) (simp add: st nb' False)
        with len show ?thesis by blast
      qed
    qed
  qed
qed

section \<open>The example data\<close>

lemma example_url_generated:
  "generate_search_url (ascii ''audi tt'') None False False None = Inr example_url"
  by (simp add: url_defs example_url_def)

lemma example_url_format:
  "\<forall>n. format_page_number example_url n = Inr (example_page_url n)"
proof -
  let ?p = "ascii ''https://www.avito.ru/moskva?s=101&bt=0&q=audi%20tt&i=0&user=0&p=''"
  have nb: "123 \<notin> set ?p" "125 \<notin> set ?p" by (simp_all add: ascii_def)
  have e: "example_url = ?p @ [123, 125]" by (simp add: example_url_def ascii_def)
  show ?thesis
    using format_fields_placeholder [OF nb]
    by (simp add: format_page_number_def e example_page_url_def)
qed

lemma example_get_date:
  "get_date example_ad
   = Inr (ascii ''10 '' @ [1103, 1085, 1074, 1072, 1088, 1103] @ ascii '' 2019'')"
  by (simp add: get_date_def example_ad_def py_strip_def ascii_def is_space_def whitespace_def)

lemma example_agregate: "agregate_ad_info now example_ad = Inr example_info"
proof -
  have t: "get_title example_ad = Inr (ascii ''Audi TT'')"
    by (simp add: get_title_def example_ad_def py_strip_def ascii_def is_space_def
          whitespace_def)
  have l: "get_link example_ad = Inr (ascii ''https://www.avito.ru/moskva/avtomobili/audi_tt_1'')"
    by (simp add: get_link_def example_ad_def ascii_def)
  have p: "get_price example_ad = Inr (Some 1234567)"
    by (simp add: get_price_def example_ad_def py_int_def int_max_str_digits_def ascii_def is_digit_def decimal_def
          unicode_zeros_def digits_value_def digit_val_def)
  show ?thesis
    using normalize_date_example_with_year [of now]
    by (simp add: agregate_ad_info_def t l p example_get_date example_info_def)
qed

lemma example_ad_ok: "ad_ok clock example_ad"
  by (simp add: ad_ok_def example_agregate)

lemma bad_ad_fails: "agregate_ad_info now bad_ad = Inl KeyError"
proof -
  have t: "get_title bad_ad = Inr (ascii ''Audi TT'')"
    by (simp add: get_title_def bad_ad_def example_ad_def py_strip_def ascii_def is_space_def
          whitespace_def)
  have l: "get_link bad_ad = Inr (ascii ''https://www.avito.ru/moskva/avtomobili/audi_tt_1'')"
    by (simp add: get_link_def bad_ad_def example_ad_def ascii_def)
  have p: "get_price bad_ad = Inr (Some 1234567)"
    by (simp add: get_price_def bad_ad_def example_ad_def py_int_def int_max_str_digits_def ascii_def is_digit_def
          decimal_def unicode_zeros_def digits_value_def digit_val_def)
  have d: "get_date bad_ad = Inr (ascii ''10 jan 2019'')"
    by (simp add: get_date_def bad_ad_def example_ad_def py_strip_def ascii_def is_space_def
          whitespace_def)
  have n: "normalize_date now (ascii ''10 jan 2019'') = Inl KeyError"
    by (simp add: normalize_date_def replace_month_name_with_number_def months_def ascii_def
          Vchera_def Segodnya_def is_space_def whitespace_def)
  show ?thesis
    by (simp add: agregate_ad_info_def t l p d n)
qed

lemma results_page_good: "good_page clock \<lparr>resp_url = example_page_url n, resp_text = results_page\<rparr>"
proof -
  have "example_page_url n \<noteq> ascii ''https://www.avito.ru/blocked''"
    by (simp add: example_page_url_def ascii_def)
  then show ?thesis
    by (simp add: good_page_def page_served_def is_page_exists_def get_ads_from_page_def
          results_page_def example_ad_ok)
qed

lemma example_run:
  "get_all_ads (web_then results_page nothing_page) example_clock (ascii ''audi tt'')
     None False False None None
   = Some (Done, [Request (example_page_url 1), Emit example_info,
                  Request (example_page_url 2)])"
proof -
  have nb: "example_page_url n \<noteq> ascii ''https://www.avito.ru/blocked''" for n
    by (simp add: example_page_url_def ascii_def)
  have f: "format_page_number example_url n = Inr (example_page_url n)" for n
    using example_url_format by simp
  have s1: "get_pages_next (web_then results_page nothing_page) example_url None Not_started []
      = (Yield results_page (At_yield 1), [Request (example_page_url 1)])"
    by (simp add: get_pages_next_def fetch_and_test_def f fetch_page_def web_then_def nb
          n_requests_def is_page_exists_def results_page_def)
  have s2: "get_pages_next (web_then results_page nothing_page) example_url None (At_yield 1)
        [Request (example_page_url 1), Emit example_info]
      = (Stop, [Request (example_page_url 1), Emit example_info, Request (example_page_url 2)])"
    by (simp add: get_pages_next_def sleep_def fetch_and_test_def f fetch_page_def web_then_def
          nb n_requests_def is_page_exists_def nothing_page_def numeral_2_eq_2)
  have a: "get_ads_from_page results_page = [example_ad]"
    by (simp add: get_ads_from_page_def results_page_def)
  have "get_all_ads_from (web_then results_page nothing_page) example_clock example_url None
      Not_started []
      = get_all_ads_from (web_then results_page nothing_page) example_clock example_url None
          (At_yield 1) [Request (example_page_url 1), Emit example_info]"
    by (subst get_all_ads_from.simps) (use s1 in \<open>simp add: a example_agregate\<close>)
  also have "\<dots> = Some (Done, [Request (example_page_url 1), Emit example_info,
      Request (example_page_url 2)])"
    by (subst get_all_ads_from.simps) (use s2 in simp)
  finally show ?thesis
    by (simp add: get_all_ads_def example_url_generated)
qed

lemma normalize_date_unknown:
  assumes "\<not> contains Vchera date" "\<not> contains Segodnya date"
    and "length (py_split date) \<le> 1 \<or> map_of months (py_split date ! 1) = None"
  shows "normalize_date now date
    = Inl (if length (py_split date) \<le> 1 then IndexError else KeyError)"
  using assms by (auto simp: normalize_date_def replace_month_name_with_number_def Let_def)

lemma agregate_unknown_date:
  assumes "\<not> contains Vchera date" "\<not> contains Segodnya date"
    and "length (py_split date) \<le> 1 \<or> map_of months (py_split date ! 1) = None"
    and "get_date bad = Inr date"
  shows "\<exists>e. \<forall>now. agregate_ad_info now bad = Inl e"
proof -
  note n = normalize_date_unknown [OF assms(1-3)]
  show ?thesis
    using assms(4)
    by (cases "get_title bad"; cases "get_link bad"; cases "get_price bad")
       (auto simp: agregate_ad_info_def n)
qed

section \<open>The properties of the runs\<close>

text \<open>
  In the statements below \<open>u n\<close> is the URL of page \<open>n\<close>, the result of formatting the
  search URL with \<open>n\<close>, and \<open>web j (u (Suc j))\<close> is the answer to request number \<open>j\<close>
  (counted from 0), which asks for page \<open>j + 1\<close>. A consumer that stops early sees a
  prefix of the trace of the full run.
\<close>

text \<open>
  Claim C2. Let the answer to request number \<open>k\<close> be a page with the "nothing found"
  message (and not the block page). Then \<open>get_pages\<close> ends and makes at most \<open>k + 1\<close>
  requests, whatever the earlier answers are. If the earlier answers are pages of
  results, it makes exactly the requests for the pages 1 to \<open>k + 1\<close>, the last event of
  the run is the request that brought the message, the pages yielded are the \<open>k\<close>
  earlier ones, and the sequence ends normally (\<open>Done\<close>), not with an error.
\<close>

theorem get_pages_stops_at_nothing_found:
  assumes fmt: "\<forall>n. format_page_number search_url n = Inr (u n)"
    and vp: "valid_pause pause"
    and nb: "resp_url (web k (u (Suc k))) \<noteq> ascii ''https://www.avito.ru/blocked''"
    and nf: "nothing_found (resp_text (web k (u (Suc k))))"
  shows "(\<exists>pages out tr. get_pages web search_url pause = Some (pages, out, tr)
            \<and> length (requested tr) \<le> Suc k)
    \<and> ((\<forall>j<k. page_served (web j (u (Suc j))))
        \<longrightarrow> (\<exists>tr. get_pages web search_url pause
                    = Some (map (\<lambda>j. resp_text (web j (u (Suc j)))) [0 ..< k], Done, tr)
                \<and> requested tr = map u [1 ..< Suc (Suc k)]
                \<and> last tr = Request (u (Suc k))))"
proof (intro conjI impI)
  have r0: "requested [] = map u [1 ..< Suc 0]" by simp
  from pages_bound [where web = web and u = u and i = 0 and k = k, OF fmt vp _ nb nf] r0
  show "\<exists>pages out tr. get_pages web search_url pause = Some (pages, out, tr)
      \<and> length (requested tr) \<le> Suc k"
    unfolding get_pages_def state_after_simps [symmetric] by blast
next
  assume "\<forall>j<k. page_served (web j (u (Suc j)))"
  then have served: "\<forall>j. 0 \<le> j \<and> j < k \<longrightarrow> page_served (web j (u (Suc j)))" by simp
  have r0: "requested [] = map u [1 ..< Suc 0]" by simp
  from pages_advance [where web = web and u = u and i = 0 and k = k and pages = "[]",
      OF fmt vp _ served r0]
  obtain tr' where tr': "requested tr' = map u [1 ..< Suc k]"
    "get_pages_from web search_url pause (state_after 0) [] []
      = get_pages_from web search_url pause (state_after k) tr'
          (map (\<lambda>j. resp_text (web j (u (Suc j)))) [0 ..< k])"
    by auto
  from pages_end [where web = web and u = u and k = k, OF fmt vp tr'(1) nb nf] tr'(2)
  show "\<exists>tr. get_pages web search_url pause
        = Some (map (\<lambda>j. resp_text (web j (u (Suc j)))) [0 ..< k], Done, tr)
      \<and> requested tr = map u [1 ..< Suc (Suc k)] \<and> last tr = Request (u (Suc k))"
    unfolding get_pages_def state_after_simps [symmetric] by auto
qed

text \<open>A page of results followed by the "nothing found" page: two requests, one page.\<close>

theorem get_pages_stops_at_nothing_found_witness:
  "\<exists>tr. get_pages (web_then results_page nothing_page) example_url None
       = Some ([results_page], Done, tr)
     \<and> requested tr = [example_page_url 1, example_page_url 2]
     \<and> last tr = Request (example_page_url 2)"
proof -
  have nb: "example_page_url n \<noteq> ascii ''https://www.avito.ru/blocked''" for n
    by (simp add: example_page_url_def ascii_def)
  show ?thesis
    using get_pages_stops_at_nothing_found
      [where web = "web_then results_page nothing_page" and u = example_page_url
         and search_url = example_url and pause = None and k = 1, OF example_url_format]
      nb
    by (simp add: valid_pause_def web_then_def nothing_page_def results_page_def
          page_served_def is_page_exists_def numeral_2_eq_2)
qed


lemma get_all_ads_start:
  assumes "generate_search_url query sort_by by_title with_images owner = Inr search_url"
  shows "get_all_ads web clock query sort_by by_title with_images owner pause
    = get_all_ads_from web clock search_url pause (state_after 0) []"
  using assms by (simp add: get_all_ads_def state_after_simps)

lemma get_all_ads_reaches:
  assumes url: "generate_search_url query sort_by by_title with_images owner = Inr search_url"
    and fmt: "\<forall>n. format_page_number search_url n = Inr (u n)"
    and vp: "valid_pause pause"
    and good: "\<forall>j<k. good_page clock (web j (u (Suc j)))"
  shows "\<exists>tr. requested tr = map u [1 ..< Suc k]
    \<and> get_all_ads web clock query sort_by by_title with_images owner pause
      = get_all_ads_from web clock search_url pause (state_after k) tr"
proof -
  have r0: "requested [] = map u [1 ..< Suc 0]" by simp
  have g: "\<forall>j. 0 \<le> j \<and> j < k \<longrightarrow> good_page clock (web j (u (Suc j)))" using good by simp
  from ads_advance [where web = web and u = u and i = 0 and k = k, OF fmt vp _ g r0]
  show ?thesis unfolding get_all_ads_start [OF url] by auto
qed

text \<open>
  Claim C3. \<open>fetch_page\<close> raises \<open>TooManyRequests\<close> exactly when the final URL of the
  answer is the block page, right after the request and whatever the body is; for any
  other final URL it returns the body. In a run of \<open>get_all_ads\<close> in which the answers
  before request number \<open>k\<close> are pages with ads and that answer is the block page, the
  run ends with \<open>TooManyRequests\<close>, the requests are those for the pages 1 to \<open>k + 1\<close>
  and the request that was blocked is the last event: nothing is extracted from the
  answer and no further page is fetched.
\<close>

theorem blocked_fetch_raises:
  assumes url: "generate_search_url query sort_by by_title with_images owner = Inr search_url"
    and fmt: "\<forall>n. format_page_number search_url n = Inr (u n)"
    and vp: "valid_pause pause"
    and good: "\<forall>j<k. good_page clock (web j (u (Suc j)))"
    and blocked: "resp_url (web k (u (Suc k))) = ascii ''https://www.avito.ru/blocked''"
  shows "(\<exists>tr. get_all_ads web clock query sort_by by_title with_images owner pause
              = Some (Failed (Python TooManyRequests), tr)
            \<and> requested tr = map u [1 ..< Suc (Suc k)]
            \<and> last tr = Request (u (Suc k)))
    \<and> (\<forall>net tr0 page_url.
          resp_url (net (n_requests tr0) page_url) = ascii ''https://www.avito.ru/blocked''
          \<longrightarrow> fetch_page net page_url tr0 = (Inl TooManyRequests, tr0 @ [Request page_url]))
    \<and> (\<forall>net tr0 page_url.
          resp_url (net (n_requests tr0) page_url) \<noteq> ascii ''https://www.avito.ru/blocked''
          \<longrightarrow> fetch_page net page_url tr0
              = (Inr (resp_text (net (n_requests tr0) page_url)), tr0 @ [Request page_url]))"
proof (intro conjI)
  from get_all_ads_reaches [where web = web and u = u and k = k, OF url fmt vp good]
  obtain tr where
    tr: "requested tr = map u [1 ..< Suc k]"
    "get_all_ads web clock query sort_by by_title with_images owner pause
      = get_all_ads_from web clock search_url pause (state_after k) tr" by blast
  from ads_end_blocked [where web = web and u = u and k = k, OF fmt vp tr(1) blocked] tr(2)
  show "\<exists>tr. get_all_ads web clock query sort_by by_title with_images owner pause
        = Some (Failed (Python TooManyRequests), tr)
      \<and> requested tr = map u [1 ..< Suc (Suc k)] \<and> last tr = Request (u (Suc k))"
    by auto
qed (simp_all add: fetch_page_def)

text \<open>A page of results, then a redirect to the block page.\<close>

theorem blocked_fetch_raises_witness:
  "\<exists>tr. get_all_ads (web_then_blocked results_page) example_clock (ascii ''audi tt'')
            None False False None None
       = Some (Failed (Python TooManyRequests), tr)
     \<and> requested tr = [example_page_url 1, example_page_url 2]
     \<and> last tr = Request (example_page_url 2)"
proof -
  have g: "\<forall>j<1. good_page example_clock
      (web_then_blocked results_page j (example_page_url (Suc j)))"
    using results_page_good [of example_clock 1] by (simp add: web_then_blocked_def)
  have b: "resp_url (web_then_blocked results_page 1 (example_page_url (Suc 1)))
      = ascii ''https://www.avito.ru/blocked''"
    by (simp add: web_then_blocked_def)
  have v: "valid_pause None" by (simp add: valid_pause_def)
  from blocked_fetch_raises
    [where web = "web_then_blocked results_page" and u = example_page_url and k = 1,
     OF example_url_generated example_url_format v g b]
  show ?thesis by (simp add: numeral_2_eq_2)
qed

text \<open>
  Claim C5. Every record that a run of \<open>get_all_ads\<close> hands to its caller has a date
  of the form \<open>YYYY-MM-DD HH:MM\<close> or \<open>YYYY-MM-DD\<close>, whatever the pages, the clock and the
  way the run ends.
\<close>

theorem emitted_dates_canonical:
  assumes "get_all_ads web clock query sort_by by_title with_images owner pause
    = Some (out, tr)"
  shows "\<forall>info\<in>set (emitted tr). canonical (Date info)"
proof (cases "generate_search_url query sort_by by_title with_images owner")
  case (Inl e)
  with assms show ?thesis by (simp add: get_all_ads_def)
next
  case (Inr search_url)
  with assms have "get_all_ads_from web clock search_url pause Not_started [] = Some (out, tr)"
    by (simp add: get_all_ads_def)
  from get_all_ads_from_canonical [OF this] show ?thesis by simp
qed

text \<open>The run over a page with the example ad and then the "nothing found" page hands
  out one record, with the date \<open>2019-01-10\<close>.\<close>

theorem emitted_dates_canonical_witness:
  "get_all_ads (web_then results_page nothing_page) example_clock (ascii ''audi tt'')
     None False False None None
   = Some (Done, [Request (example_page_url 1), Emit example_info,
                  Request (example_page_url 2)])
   \<and> canonical (ascii ''2019-01-10'')"
  using emitted_dates_canonical [OF example_run] example_run
  by (simp add: example_info_def)

text \<open>
  Claim C7. A date text without a relative marker whose second word is not one of the
  twelve month names (or that has no second word) makes \<open>normalize_date\<close> raise
  (\<open>KeyError\<close>, or \<open>IndexError\<close> when the word is missing) and produce no text. In a run
  of \<open>get_all_ads\<close>, when the first ad with such a date is met on a page, after pages
  with ads that aggregate and after the ads \<open>pre\<close> of that page, the run ends with an
  exception: the records of \<open>pre\<close> have been handed out, the ad is not skipped, the ads
  after it are never aggregated and no further page is requested.
\<close>

theorem unknown_month_aborts:
  assumes nomark: "\<not> contains Vchera date" "\<not> contains Segodnya date"
    and unknown: "length (py_split date) \<le> 1 \<or> map_of months (py_split date ! 1) = None"
  shows "(normalize_date now date = Inl IndexError \<or> normalize_date now date = Inl KeyError)
    \<and> (generate_search_url query sort_by by_title with_images owner = Inr search_url
        \<and> (\<forall>n. format_page_number search_url n = Inr (u n))
        \<and> valid_pause pause
        \<and> (\<forall>j<k. good_page clock (web j (u (Suc j))))
        \<and> page_served (web k (u (Suc k)))
        \<and> get_ads_from_page (resp_text (web k (u (Suc k)))) = pre @ bad # post
        \<and> (\<forall>a\<in>set pre. ad_ok clock a)
        \<and> get_date bad = Inr date
        \<longrightarrow> (\<exists>e tr infos.
               get_all_ads web clock query sort_by by_title with_images owner pause
                 = Some (Failed (Python e), tr @ map Emit infos)
               \<and> requested tr = map u [1 ..< Suc (Suc k)]
               \<and> last tr = Request (u (Suc k))
               \<and> length infos = length pre))"
proof (intro conjI impI)
  show "normalize_date now date = Inl IndexError \<or> normalize_date now date = Inl KeyError"
    using normalize_date_unknown [OF assms, of now] by auto
next
  assume a: "generate_search_url query sort_by by_title with_images owner = Inr search_url
      \<and> (\<forall>n. format_page_number search_url n = Inr (u n))
      \<and> valid_pause pause
      \<and> (\<forall>j<k. good_page clock (web j (u (Suc j))))
      \<and> page_served (web k (u (Suc k)))
      \<and> get_ads_from_page (resp_text (web k (u (Suc k)))) = pre @ bad # post
      \<and> (\<forall>a\<in>set pre. ad_ok clock a)
      \<and> get_date bad = Inr date"
  then have url: "generate_search_url query sort_by by_title with_images owner = Inr search_url"
    and fmt: "\<forall>n. format_page_number search_url n = Inr (u n)"
    and vp: "valid_pause pause"
    and good: "\<forall>j<k. good_page clock (web j (u (Suc j)))"
    and served: "page_served (web k (u (Suc k)))"
    and ads: "get_ads_from_page (resp_text (web k (u (Suc k)))) = pre @ bad # post"
    and pre: "\<forall>a\<in>set pre. ad_ok clock a"
    and bad: "get_date bad = Inr date"
    by blast+
  from agregate_unknown_date [OF assms bad] obtain e where
    e: "\<forall>t. agregate_ad_info (clock t) bad = Inl e" by blast
  from get_all_ads_reaches [where web = web and u = u and k = k, OF url fmt vp good]
  obtain tr where
    tr: "requested tr = map u [1 ..< Suc k]"
    "get_all_ads web clock query sort_by by_title with_images owner pause
      = get_all_ads_from web clock search_url pause (state_after k) tr" by blast
  from ads_end_bad [where web = web and u = u and k = k, OF fmt vp tr(1) served ads pre e] tr(2)
  show "\<exists>e tr infos.
      get_all_ads web clock query sort_by by_title with_images owner pause
        = Some (Failed (Python e), tr @ map Emit infos)
      \<and> requested tr = map u [1 ..< Suc (Suc k)]
      \<and> last tr = Request (u (Suc k))
      \<and> length infos = length pre"
    by metis
qed

text \<open>The page whose second ad has the date \<open>10 jan 2019\<close>: one record is handed out,
  then the run ends with an exception.\<close>

theorem unknown_month_aborts_witness:
  "normalize_date (example_clock 0) (ascii ''10 jan 2019'') = Inl KeyError
   \<and> (\<exists>e tr infos.
        get_all_ads (web_then bad_page nothing_page) example_clock (ascii ''audi tt'')
          None False False None None
          = Some (Failed (Python e), tr @ map Emit infos)
        \<and> requested tr = [example_page_url 1]
        \<and> last tr = Request (example_page_url 1)
        \<and> length infos = 1)"
proof -
  have m: "\<not> contains Vchera (ascii ''10 jan 2019'')"
    "\<not> contains Segodnya (ascii ''10 jan 2019'')"
    by (simp_all add: ascii_def Vchera_def Segodnya_def)
  have s: "py_split (ascii ''10 jan 2019'') = [ascii ''10'', ascii ''jan'', ascii ''2019'']"
    by (simp add: ascii_def is_space_def whitespace_def)
  have un: "length (py_split (ascii ''10 jan 2019'')) \<le> 1
      \<or> map_of months (py_split (ascii ''10 jan 2019'') ! 1) = None"
    by (simp add: s) (simp add: months_def ascii_def)
  have nb: "example_page_url n \<noteq> ascii ''https://www.avito.ru/blocked''" for n
    by (simp add: example_page_url_def ascii_def)
  have served: "page_served (web_then bad_page nothing_page 0 (example_page_url (Suc 0)))"
    by (simp add: page_served_def web_then_def nb is_page_exists_def bad_page_def)
  have ads: "get_ads_from_page (resp_text (web_then bad_page nothing_page 0
      (example_page_url (Suc 0)))) = [example_ad] @ bad_ad # [example_ad]"
    by (simp add: web_then_def get_ads_from_page_def bad_page_def)
  have d: "get_date bad_ad = Inr (ascii ''10 jan 2019'')"
    by (simp add: get_date_def bad_ad_def example_ad_def py_strip_def ascii_def is_space_def
          whitespace_def)
  have k: "normalize_date (example_clock 0) (ascii ''10 jan 2019'') = Inl KeyError"
    using normalize_date_unknown [OF m un, of "example_clock 0"] by (simp add: s)
  from unknown_month_aborts
    [OF m un, where web = "web_then bad_page nothing_page" and u = example_page_url
       and k = 0 and pre = "[example_ad]" and bad = bad_ad and post = "[example_ad]"
       and clock = example_clock and search_url = example_url and pause = None
       and query = "ascii ''audi tt''" and sort_by = None and by_title = False
       and with_images = False and owner = None and now = "example_clock 0"]
    example_url_generated example_url_format served ads d k
  show ?thesis
    by (simp add: valid_pause_def example_ad_ok)
qed

text \<open>
  Claim C10. In a run of \<open>get_all_ads\<close> in which the answers before request number \<open>k\<close>
  are pages with ads and that answer is a page without the "nothing found" message
  from which no ad is extracted, the run ends normally (\<open>Done\<close>): the requests are those
  for the pages 1 to \<open>k + 1\<close>, the last event is the request for the page without ads,
  so no record follows it and no further page is requested. The generator \<open>get_pages\<close>
  itself yields that page and stays ready to fetch the next one.
\<close>

theorem page_without_ads_ends_run:
  assumes url: "generate_search_url query sort_by by_title with_images owner = Inr search_url"
    and fmt: "\<forall>n. format_page_number search_url n = Inr (u n)"
    and vp: "valid_pause pause"
    and good: "\<forall>j<k. good_page clock (web j (u (Suc j)))"
    and served: "page_served (web k (u (Suc k)))"
    and empty: "get_ads_from_page (resp_text (web k (u (Suc k)))) = []"
  shows "(\<exists>tr. get_all_ads web clock query sort_by by_title with_images owner pause
              = Some (Done, tr)
            \<and> requested tr = map u [1 ..< Suc (Suc k)]
            \<and> last tr = Request (u (Suc k)))
    \<and> (\<forall>tr0. requested tr0 = map u [1 ..< Suc k]
          \<longrightarrow> (\<exists>tr1. get_pages_next web search_url pause (state_after k) tr0
                  = (Yield (resp_text (web k (u (Suc k)))) (At_yield (Suc k)), tr1)))"
proof (intro conjI allI impI)
  from get_all_ads_reaches [where web = web and u = u and k = k, OF url fmt vp good]
  obtain tr where
    tr: "requested tr = map u [1 ..< Suc k]"
    "get_all_ads web clock query sort_by by_title with_images owner pause
      = get_all_ads_from web clock search_url pause (state_after k) tr" by blast
  from ads_end_empty [where web = web and u = u and k = k, OF fmt vp tr(1) served empty] tr(2)
  show "\<exists>tr. get_all_ads web clock query sort_by by_title with_images owner pause
        = Some (Done, tr)
      \<and> requested tr = map u [1 ..< Suc (Suc k)] \<and> last tr = Request (u (Suc k))"
    by auto
next
  fix tr0
  assume "requested tr0 = map u [1 ..< Suc k]"
  from get_pages_next_step [OF fmt vp this, of web] served
  show "\<exists>tr1. get_pages_next web search_url pause (state_after k) tr0
      = (Yield (resp_text (web k (u (Suc k)))) (At_yield (Suc k)), tr1)"
    by (auto simp: page_served_def state_after_simps)
qed

text \<open>A page of results, then a page with neither ads nor the message.\<close>

theorem page_without_ads_ends_run_witness:
  "\<exists>tr. get_all_ads (web_then results_page empty_page) example_clock (ascii ''audi tt'')
            None False False None None
       = Some (Done, tr)
     \<and> requested tr = [example_page_url 1, example_page_url 2]
     \<and> last tr = Request (example_page_url 2)"
proof -
  have nb: "example_page_url n \<noteq> ascii ''https://www.avito.ru/blocked''" for n
    by (simp add: example_page_url_def ascii_def)
  have g: "\<forall>j<1. good_page example_clock
      (web_then results_page empty_page j (example_page_url (Suc j)))"
    using results_page_good [of example_clock 1] by (simp add: web_then_def)
  have s: "page_served (web_then results_page empty_page 1 (example_page_url (Suc 1)))"
    by (simp add: page_served_def web_then_def nb is_page_exists_def empty_page_def)
  have e: "get_ads_from_page (resp_text (web_then results_page empty_page 1
      (example_page_url (Suc 1)))) = []"
    by (simp add: web_then_def get_ads_from_page_def empty_page_def)
  have v: "valid_pause None" by (simp add: valid_pause_def)
  from page_without_ads_ends_run
    [where web = "web_then results_page empty_page" and u = example_page_url and k = 1,
     OF example_url_generated example_url_format v g s e]
  show ?thesis by (simp add: numeral_2_eq_2)
qed

end
